theory Spec2Isabelle
  imports Complex_Main "HOL-Library.Monad_Syntax"
begin

section \<open>Tool Sequence Planner\<close>

text \<open>
  The planner is \<^verbatim>\<open>GCodeToolSwitcher.calculate_tool_distribution\<close>.
  A ratio count arrives as a Python float read from the entry fields; every finite
  float is a rational number and the two operations the planner applies to a count,
  \<^verbatim>\<open>int(count)\<close> and \<^verbatim>\<open>count % 1\<close>, are exact on
  floats, so a count is a \<open>rat\<close> here. The layer count is
  \<^verbatim>\<open>len(layer_positions)\<close>, a natural number, and a tool id is an index
  produced by \<^verbatim>\<open>enumerate\<close>, a natural number as well.
\<close>

text \<open>\<^verbatim>\<open>int(count)\<close>: truncation towards zero.\<close>

definition py_int :: "rat \<Rightarrow> int" where
  "py_int c = (if c < 0 then \<lceil>c\<rceil> else \<lfloor>c\<rfloor>)"

text \<open>\<^verbatim>\<open>count % 1\<close>: the remainder takes the sign of the divisor.\<close>

definition py_mod1 :: "rat \<Rightarrow> rat" where
  "py_mod1 c = c - of_int \<lfloor>c\<rfloor>"

text \<open>
  The inner loop \<^verbatim>\<open>for _ in range(int(count))\<close>: one append per round while
  the sequence is shorter than \<open>total_layers\<close>, \<^verbatim>\<open>break\<close> otherwise.
\<close>

fun whole_layers :: "nat \<Rightarrow> nat \<Rightarrow> nat \<Rightarrow> nat list \<Rightarrow> nat list" where
  "whole_layers total_layers tool_idx 0 tool_sequence = tool_sequence"
| "whole_layers total_layers tool_idx (Suc k) tool_sequence =
     (if length tool_sequence < total_layers
      then whole_layers total_layers tool_idx k (tool_sequence @ [tool_idx])
      else tool_sequence)"

text \<open>
  One pass of \<^verbatim>\<open>for tool_idx, count in enumerate(ratio_pattern)\<close>, over the
  remaining (index, count) pairs.
\<close>

fun sweep :: "nat \<Rightarrow> (nat \<times> rat) list \<Rightarrow> nat list \<Rightarrow> nat list" where
  "sweep total_layers [] tool_sequence = tool_sequence"
| "sweep total_layers ((tool_idx, count) # rest) tool_sequence =
     (let seq1 = whole_layers total_layers tool_idx (nat (py_int count)) tool_sequence;
          seq2 = (if py_mod1 count > 0 \<and> length seq1 < total_layers
                  then seq1 @ [tool_idx] else seq1)
      in if length seq2 \<ge> total_layers then seq2 else sweep total_layers rest seq2)"

text \<open>
  The outer \<^verbatim>\<open>while len(tool_sequence) < total_layers\<close>. Nothing bounds the
  number of sweeps, so the loop is a partial function: \<open>None\<close> is a run that never
  returns.
\<close>

partial_function (option) plan_loop :: "nat \<Rightarrow> rat list \<Rightarrow> nat list \<Rightarrow> nat list option" where
  "plan_loop total_layers ratio_pattern tool_sequence =
     (if length tool_sequence < total_layers
      then plan_loop total_layers ratio_pattern
             (sweep total_layers (enumerate 0 ratio_pattern) tool_sequence)
      else Some tool_sequence)"

declare plan_loop.simps [code]

definition calculate_tool_distribution :: "nat \<Rightarrow> rat list \<Rightarrow> nat list option" where
  "calculate_tool_distribution total_layers ratio_pattern =
     plan_loop total_layers ratio_pattern []"

text \<open>What one tool contributes to a sweep that is not cut short.\<close>

definition allotment :: "nat \<times> rat \<Rightarrow> nat list" where
  "allotment p = replicate (nat (py_int (snd p)) + (if py_mod1 (snd p) > 0 then 1 else 0)) (fst p)"

text \<open>A whole sweep of the pattern, not cut short.\<close>

definition full_sweep :: "rat list \<Rightarrow> nat list" where
  "full_sweep ratio_pattern = concat (map allotment (enumerate 0 ratio_pattern))"

text \<open>
  The data model's condition on a ratio pattern: counts are non-negative and their sum
  is positive.
\<close>

definition valid_pattern :: "rat list \<Rightarrow> bool" where
  "valid_pattern ratio_pattern = (list_all (\<lambda>c. 0 \<le> c) ratio_pattern \<and> 0 < sum_list ratio_pattern)"

text \<open>How many layers one tool gets in a sweep that is not cut short.\<close>

definition per_sweep :: "rat \<Rightarrow> nat" where
  "per_sweep c = nat (py_int c) + (if py_mod1 c > 0 then 1 else 0)"

subsection \<open>The planner as the specification words it\<close>

text \<open>
  One sweep as the specification describes it: for each tool, from index 0 to the last,
  its id \<open>floor(count)\<close> times and once more when the count has a nonzero fractional
  part. The plan is the first \<open>n\<close> entries of the repeated sweeps (\<open>n\<close> sweeps
  are enough whenever a sweep is not empty).
\<close>

definition spec_sweep :: "rat list \<Rightarrow> nat list" where
  "spec_sweep ratio_pattern =
     concat (map (\<lambda>(tool, count).
        replicate (nat \<lfloor>count\<rfloor>) tool @ (if frac count \<noteq> 0 then [tool] else []))
       (enumerate 0 ratio_pattern))"

definition spec_plan :: "nat \<Rightarrow> rat list \<Rightarrow> nat list" where
  "spec_plan n ratio_pattern = take n (concat (replicate n (spec_sweep ratio_pattern)))"

text \<open>
  The share of the layers a tool gets from the repeated sweep: its per-sweep allotment,
  the count rounded up, over the allotments of all tools.
\<close>

definition sweep_share :: "rat list \<Rightarrow> nat \<Rightarrow> rat" where
  "sweep_share ratio_pattern t =
     of_int \<lceil>ratio_pattern ! t\<rceil> / of_int (\<Sum>c\<leftarrow>ratio_pattern. \<lceil>c\<rceil>)"

section \<open>Command Rewriter\<close>

subsection \<open>Text, numbers and the regular expressions of the source\<close>

text \<open>
  A line is a \<open>string\<close>; a \<open>char\<close> stands for the code point of the same number
  (the code points below 256, which cover the ASCII text of G-code). The classes below
  are what Python's \<^verbatim>\<open>re\<close> matches on such code points for a \<^verbatim>\<open>str\<close>
  pattern: \<^verbatim>\<open>\d\<close>, \<^verbatim>\<open>\s\<close> and the word characters \<^verbatim>\<open>\w\<close>
  that decide \<^verbatim>\<open>\b\<close>.
\<close>

definition is_digit :: "char \<Rightarrow> bool" where
  "is_digit c = (let n = (of_char c :: nat) in 48 \<le> n \<and> n \<le> 57)"

definition is_space :: "char \<Rightarrow> bool" where
  "is_space c = (let n = (of_char c :: nat) in
     (9 \<le> n \<and> n \<le> 13) \<or> (28 \<le> n \<and> n \<le> 32) \<or> n = 133 \<or> n = 160)"

definition is_word :: "char \<Rightarrow> bool" where
  "is_word c = (let n = (of_char c :: nat) in
     (48 \<le> n \<and> n \<le> 57) \<or> (65 \<le> n \<and> n \<le> 90) \<or> n = 95 \<or> (97 \<le> n \<and> n \<le> 122) \<or>
     n = 170 \<or> n = 178 \<or> n = 179 \<or> n = 181 \<or> n = 185 \<or> n = 186 \<or>
     (188 \<le> n \<and> n \<le> 190) \<or> (192 \<le> n \<and> n \<le> 214) \<or> (216 \<le> n \<and> n \<le> 246) \<or>
     (248 \<le> n \<and> n \<le> 255))"

text \<open>
  \<^verbatim>\<open>int(s)\<close> on a string of decimal digits, and \<^verbatim>\<open>str(n)\<close> (also the
  \<^verbatim>\<open>{n}\<close> of an f-string) on a non-negative integer. Python's integers are
  unbounded, and so is \<open>nat\<close>.
\<close>

definition int_of_digits :: "string \<Rightarrow> nat" where
  "int_of_digits s = foldl (\<lambda>a c. 10 * a + (of_char c - 48)) 0 s"

fun str_nat :: "nat \<Rightarrow> string" where
  "str_nat n =
     (if n < 10 then [char_of (48 + n)]
      else str_nat (n div 10) @ [char_of (48 + n mod 10)])"

declare str_nat.simps [simp del]

text \<open>
  The pieces of a pattern, each matched at the start of a string and returning what is
  left of it. \<^verbatim>\<open>\s+\<close> and \<^verbatim>\<open>\d+\<close> are greedy; in every pattern of the
  source the piece that follows cannot start with a character of the class, so the
  longest run is the only run the backtracking matcher can settle on.
\<close>

definition lit :: "string \<Rightarrow> string \<Rightarrow> string option" where
  "lit p s = (if take (length p) s = p then Some (drop (length p) s) else None)"

definition spaces1 :: "string \<Rightarrow> string option" where
  "spaces1 s = (if takeWhile is_space s = [] then None else Some (dropWhile is_space s))"

definition digits1 :: "string \<Rightarrow> (string \<times> string) option" where
  "digits1 s =
     (if takeWhile is_digit s = [] then None
      else Some (takeWhile is_digit s, dropWhile is_digit s))"

text \<open>
  \<^verbatim>\<open>pattern.search(line)\<close>: the match at the leftmost position that has one.
\<close>

fun re_search :: "(string \<Rightarrow> 'a option) \<Rightarrow> string \<Rightarrow> 'a option" where
  "re_search m [] = m []"
| "re_search m (c # cs) = (case m (c # cs) of Some r \<Rightarrow> Some r | None \<Rightarrow> re_search m cs)"

text \<open>
  \<^verbatim>\<open>\b\<close> holds between two positions when exactly one side is a word
  character; the start and the end of the string count as no word character.
\<close>

definition word_boundary :: "char option \<Rightarrow> string \<Rightarrow> bool" where
  "word_boundary prev s =
     ((case prev of None \<Rightarrow> False | Some p \<Rightarrow> is_word p) \<noteq>
      (case s of [] \<Rightarrow> False | c # _ \<Rightarrow> is_word c))"

text \<open>
  \<^verbatim>\<open>park_pattern = P0\s+S1\s+L2\s+D0\<close>; only whether it matches is used.
\<close>

definition park_at :: "string \<Rightarrow> unit option" where
  "park_at s =
     lit ''P0'' s \<bind> spaces1 \<bind> lit ''S1'' \<bind> spaces1 \<bind> lit ''L2'' \<bind> spaces1 \<bind>
     lit ''D0'' \<bind> (\<lambda>_. Some ())"

definition park_search :: "string \<Rightarrow> bool" where
  "park_search line = (re_search park_at line \<noteq> None)"

text \<open>
  \<^verbatim>\<open>pickup_pattern = T(\d+)\s+S1\s+L0\s+D0\<close>; the result is
  \<^verbatim>\<open>int(match.group(1))\<close>.
\<close>

definition pickup_at :: "string \<Rightarrow> nat option" where
  "pickup_at s =
     lit ''T'' s \<bind> digits1 \<bind> (\<lambda>(d, s1).
       spaces1 s1 \<bind> lit ''S1'' \<bind> spaces1 \<bind> lit ''L0'' \<bind> spaces1 \<bind> lit ''D0'' \<bind>
       (\<lambda>_. Some (int_of_digits d)))"

definition pickup_search :: "string \<Rightarrow> nat option" where
  "pickup_search line = re_search pickup_at line"

text \<open>\<^verbatim>\<open>m104_pattern = M104\.1\s+T(\d+)\<close>.\<close>

definition m104_at :: "string \<Rightarrow> nat option" where
  "m104_at s =
     lit ''M104.1'' s \<bind> spaces1 \<bind> lit ''T'' \<bind> digits1 \<bind>
     (\<lambda>(d, _). Some (int_of_digits d))"

definition m104_search :: "string \<Rightarrow> nat option" where
  "m104_search line = re_search m104_at line"

text \<open>
  \<^verbatim>\<open>tool_pattern = \bT(\d+)\s+S\d+\s+L\d+\s+D\d+\<close>. The search carries the
  character before the position, for the \<^verbatim>\<open>\b\<close> in front of the
  \<^verbatim>\<open>T\<close>.
\<close>

definition tool_at :: "string \<Rightarrow> nat option" where
  "tool_at s =
     lit ''T'' s \<bind> digits1 \<bind> (\<lambda>(d, s1).
       spaces1 s1 \<bind> lit ''S'' \<bind> digits1 \<bind> (\<lambda>(_, s2).
       spaces1 s2 \<bind> lit ''L'' \<bind> digits1 \<bind> (\<lambda>(_, s3).
       spaces1 s3 \<bind> lit ''D'' \<bind> digits1 \<bind> (\<lambda>_. Some (int_of_digits d)))))"

fun tool_search_from :: "char option \<Rightarrow> string \<Rightarrow> nat option" where
  "tool_search_from prev [] = None"
| "tool_search_from prev (c # cs) =
     (case (if word_boundary prev (c # cs) then tool_at (c # cs) else None) of
        Some r \<Rightarrow> Some r
      | None \<Rightarrow> tool_search_from (Some c) cs)"

definition tool_search :: "string \<Rightarrow> nat option" where
  "tool_search line = tool_search_from None line"

text \<open>
  \<^verbatim>\<open>simple_tool_pattern = ^T(\d+)\s*;\<close>: without the multi-line flag
  \<^verbatim>\<open>^\<close> is the start of the string only.
\<close>

definition simple_search :: "string \<Rightarrow> nat option" where
  "simple_search line =
     lit ''T'' line \<bind> digits1 \<bind> (\<lambda>(d, s1).
       lit '';'' (dropWhile is_space s1) \<bind> (\<lambda>_. Some (int_of_digits d)))"

text \<open>
  \<^verbatim>\<open>re.search(r'P(\d+)', line)\<close> and the same for \<^verbatim>\<open>Q\<close> and
  \<^verbatim>\<open>S\<close>: the result is \<^verbatim>\<open>group(1)\<close>, the digits as text.
\<close>

definition param_search :: "char \<Rightarrow> string \<Rightarrow> string option" where
  "param_search letter line =
     re_search (\<lambda>s. lit [letter] s \<bind> digits1 \<bind> (\<lambda>(d, _). Some d)) line"

text \<open>
  \<^verbatim>\<open>re.search(r';.*$', line)\<close>, the result \<^verbatim>\<open>group(0)\<close>. The dot
  matches every character but the newline, and \<^verbatim>\<open>$\<close> holds at the end of the
  string and in front of a newline that ends the string.
\<close>

definition comment_at :: "string \<Rightarrow> string option" where
  "comment_at s =
     lit '';'' s \<bind> (\<lambda>s1.
       let body = takeWhile (\<lambda>c. c \<noteq> CHR 0x0A) s1;
           rest = dropWhile (\<lambda>c. c \<noteq> CHR 0x0A) s1
       in if rest = [] \<or> rest = [CHR 0x0A] then Some (CHR '';'' # body) else None)"

definition comment_search :: "string \<Rightarrow> string option" where
  "comment_search line = re_search comment_at line"

text \<open>
  \<^verbatim>\<open>re.sub(r'T\d+', repl, line)\<close>: every match, left to right, is replaced. The
  replacement \<^verbatim>\<open>f'T{current_tool}'\<close> has no backslash, so it is inserted as it
  is.
\<close>

function sub_all_T :: "string \<Rightarrow> string \<Rightarrow> string" where
  "sub_all_T repl [] = []"
| "sub_all_T repl (c # cs) =
     (if c = CHR ''T'' \<and> takeWhile is_digit cs \<noteq> []
      then repl @ sub_all_T repl (dropWhile is_digit cs)
      else c # sub_all_T repl cs)"
  by pat_completeness auto
termination
  by (relation "measure (\<lambda>(repl, s). length s)")
     (auto simp: less_Suc_eq_le length_dropWhile_le)

text \<open>
  \<^verbatim>\<open>re.sub(r'\bT\d+\b', repl, line)\<close>. After the longest run of digits the
  second \<^verbatim>\<open>\b\<close> needs a character that is no word character, or the end; a
  shorter run would end between two digits, where no boundary is.
\<close>

function sub_word_T :: "string \<Rightarrow> char option \<Rightarrow> string \<Rightarrow> string" where
  "sub_word_T repl prev [] = []"
| "sub_word_T repl prev (c # cs) =
     (if c = CHR ''T'' \<and> word_boundary prev (c # cs) \<and> takeWhile is_digit cs \<noteq> [] \<and>
         word_boundary (Some (last (takeWhile is_digit cs))) (dropWhile is_digit cs)
      then repl @ sub_word_T repl (Some (last (takeWhile is_digit cs))) (dropWhile is_digit cs)
      else c # sub_word_T repl (Some c) cs)"
  by pat_completeness auto
termination
  by (relation "measure (\<lambda>(repl, prev, s). length s)")
     (auto simp: less_Suc_eq_le length_dropWhile_le)

text \<open>\<^verbatim>\<open>re.sub(r'^T\d+', repl, line)\<close>.\<close>

definition sub_start_T :: "string \<Rightarrow> string \<Rightarrow> string" where
  "sub_start_T repl line =
     (case lit ''T'' line \<bind> digits1 of Some (_, rest) \<Rightarrow> repl @ rest | None \<Rightarrow> line)"

subsection \<open>The rewriting pass\<close>

text \<open>
  \<^verbatim>\<open>self.tool_names[t]\<close> on the list of tool names raises
  \<^verbatim>\<open>IndexError\<close> for an id past its end. A tool id is never negative here: it
  comes from the tool sequence or from the digits of a matched command.
\<close>

datatype error = IndexError | FileNotFound

definition tool_name :: "string list \<Rightarrow> nat \<Rightarrow> error + string" where
  "tool_name tool_names t = (if t < length tool_names then Inr (tool_names ! t) else Inl IndexError)"

text \<open>
  The three annotations
  \<^verbatim>\<open>f"; {line}<what>T{current_tool} ({self.tool_names[current_tool]}) is already active"\<close>,
  where \<open>what\<close> is \<^verbatim>\<open>" - skipped parking as "\<close>,
  \<^verbatim>\<open>" - skipped pickup as "\<close> or \<^verbatim>\<open>" - skipped as "\<close>.
\<close>

definition skip_note :: "string list \<Rightarrow> string \<Rightarrow> string \<Rightarrow> nat \<Rightarrow> error + string" where
  "skip_note tool_names what line cur =
     (case tool_name tool_names cur of
        Inl e \<Rightarrow> Inl e
      | Inr name \<Rightarrow>
          Inr (''; '' @ line @ what @ ''T'' @ str_nat cur @ '' ('' @ name @ '') is already active''))"

text \<open>\<^verbatim>\<open>f'T{current_tool}'\<close>, the replacement of every \<^verbatim>\<open>re.sub\<close>.\<close>

definition tool_token :: "nat \<Rightarrow> string" where
  "tool_token cur = ''T'' @ str_nat cur"

text \<open>
  The replacement heater command of lines 90 to 101: the parameters found anywhere in
  the line or their defaults, then the line's comment or a synthesized one.
\<close>

definition m104_command :: "string list \<Rightarrow> nat \<Rightarrow> nat \<Rightarrow> string \<Rightarrow> error + string" where
  "m104_command tool_names old_tool cur line =
     (let p_value = (case param_search CHR ''P'' line of Some d \<Rightarrow> d | None \<Rightarrow> ''120'');
          q_value = (case param_search CHR ''Q'' line of Some d \<Rightarrow> d
                     | None \<Rightarrow> str_nat (int_of_digits p_value + cur + 1));
          s_value = (case param_search CHR ''S'' line of Some d \<Rightarrow> d | None \<Rightarrow> ''210'');
          new_command = ''M104.1 T'' @ str_nat cur @ '' P'' @ p_value @ '' Q'' @ q_value @
                        '' S'' @ s_value
      in case comment_search line of
           Some comment \<Rightarrow> Inr (new_command @ '' '' @ comment)
         | None \<Rightarrow>
             (case tool_name tool_names old_tool of
                Inl e \<Rightarrow> Inl e
              | Inr old_name \<Rightarrow>
                  (case tool_name tool_names cur of
                     Inl e \<Rightarrow> Inl e
                   | Inr cur_name \<Rightarrow>
                       Inr (new_command @ '' ; switched from T'' @ str_nat old_tool @ '' ('' @
                            old_name @ '') to T'' @ str_nat cur @ '' ('' @ cur_name @ '')''))))"

text \<open>
  One stage of the loop body hands on the text of \<^verbatim>\<open>modified_gcode[i]\<close> and
  the active tool, and says whether the source goes on to the next pattern
  (\<open>Next\<close>) or leaves the line with \<^verbatim>\<open>continue\<close> (\<open>Skip\<close>).
\<close>

datatype flow = Next string "nat option" | Skip string "nat option"

text \<open>Lines 68 to 72: the park command.\<close>

definition park_stage :: "string list \<Rightarrow> nat \<Rightarrow> nat option \<Rightarrow> string \<Rightarrow> error + flow" where
  "park_stage tool_names cur active line =
     (if park_search line \<and> active = Some cur
      then (case skip_note tool_names '' - skipped parking as '' line cur of
              Inl e \<Rightarrow> Inl e | Inr note \<Rightarrow> Inr (Skip note active))
      else Inr (Next line active))"

text \<open>Lines 73 to 84: the pickup command.\<close>

definition pickup_stage :: "string list \<Rightarrow> nat \<Rightarrow> nat option \<Rightarrow> string \<Rightarrow> error + flow" where
  "pickup_stage tool_names cur active line =
     (case pickup_search line of
        None \<Rightarrow> Inr (Next line active)
      | Some tool_to_pickup \<Rightarrow>
          if tool_to_pickup \<noteq> cur then Inr (Next (sub_all_T (tool_token cur) line) (Some cur))
          else if active = Some cur
          then (case skip_note tool_names '' - skipped pickup as '' line cur of
                  Inl e \<Rightarrow> Inl e | Inr note \<Rightarrow> Inr (Skip note active))
          else Inr (Next line (Some cur)))"

text \<open>
  Lines 85 to 107: the heater preselect. \<open>modified\<close> is the text the earlier stages
  left in \<^verbatim>\<open>modified_gcode[i]\<close>; the patterns read \<open>line\<close>, the text of
  the input line.
\<close>

definition m104_stage ::
  "string list \<Rightarrow> nat \<Rightarrow> nat option \<Rightarrow> string \<Rightarrow> string \<Rightarrow> error + flow" where
  "m104_stage tool_names cur active line modified =
     (case m104_search line of
        None \<Rightarrow> Inr (Next modified active)
      | Some old_tool \<Rightarrow>
          if old_tool \<noteq> cur then
            if active \<noteq> Some cur
            then (case m104_command tool_names old_tool cur line of
                    Inl e \<Rightarrow> Inl e | Inr new_command \<Rightarrow> Inr (Next new_command (Some cur)))
            else (case skip_note tool_names '' - skipped as '' line cur of
                    Inl e \<Rightarrow> Inl e | Inr note \<Rightarrow> Inr (Skip note active))
          else Inr (Next modified active))"

text \<open>Lines 108 to 114: the tool token with parameters.\<close>

definition tool_stage :: "nat \<Rightarrow> nat option \<Rightarrow> string \<Rightarrow> string \<Rightarrow> string \<times> nat option" where
  "tool_stage cur active line modified =
     (case tool_search line of
        None \<Rightarrow> (modified, active)
      | Some old_tool \<Rightarrow>
          if old_tool \<noteq> cur then (sub_word_T (tool_token cur) None line, Some cur)
          else (modified, active))"

text \<open>Lines 115 to 121: the tool token that starts a line.\<close>

definition simple_stage :: "nat \<Rightarrow> nat option \<Rightarrow> string \<Rightarrow> string \<Rightarrow> string \<times> nat option" where
  "simple_stage cur active line modified =
     (case simple_search line of
        None \<Rightarrow> (modified, active)
      | Some old_tool \<Rightarrow>
          if old_tool \<noteq> cur then (sub_start_T (tool_token cur) line, Some cur)
          else (modified, active))"

text \<open>
  Lines 68 to 121 for one line, with \<^verbatim>\<open>current_tool\<close> set to \<open>cur\<close>: the
  new text of the line and the new active tool, or the exception.
\<close>

definition rewrite_line ::
  "string list \<Rightarrow> nat \<Rightarrow> nat option \<Rightarrow> string \<Rightarrow> error + string \<times> nat option" where
  "rewrite_line tool_names cur active line =
     (case park_stage tool_names cur active line of
        Inl e \<Rightarrow> Inl e
      | Inr (Skip out act) \<Rightarrow> Inr (out, act)
      | Inr (Next m0 a0) \<Rightarrow>
     (case pickup_stage tool_names cur a0 line of
        Inl e \<Rightarrow> Inl e
      | Inr (Skip out act) \<Rightarrow> Inr (out, act)
      | Inr (Next m1 a1) \<Rightarrow>
     (case m104_stage tool_names cur a1 line m1 of
        Inl e \<Rightarrow> Inl e
      | Inr (Skip out act) \<Rightarrow> Inr (out, act)
      | Inr (Next m2 a2) \<Rightarrow>
          (case tool_stage cur a2 line m2 of
             (m3, a3) \<Rightarrow> Inr (simple_stage cur a3 line m3)))))"

text \<open>The state of a pass, as lines 59 to 61 set it up.\<close>

record rewrite_state =
  current_layer :: int
  current_tool :: "nat option"
  active_tool :: "nat option"

definition initial_state :: rewrite_state where
  "initial_state = \<lparr>current_layer = - 1, current_tool = None, active_tool = None\<rparr>"

text \<open>Lines 63 to 66: a layer boundary moves the pass to the next planned tool.\<close>

definition advance_layer :: "nat list \<Rightarrow> nat list \<Rightarrow> nat \<Rightarrow> rewrite_state \<Rightarrow> rewrite_state" where
  "advance_layer layer_positions tool_sequence i st =
     (if i \<in> set layer_positions
      then (let l = current_layer st + 1
            in if l < int (length tool_sequence)
               then st\<lparr>current_layer := l, current_tool := Some (tool_sequence ! nat l)\<rparr>
               else st\<lparr>current_layer := l\<rparr>)
      else st)"

text \<open>The body of the loop for line \<open>i\<close>: the new text of the line and the new state.\<close>

definition modify_step ::
  "string list \<Rightarrow> nat list \<Rightarrow> nat list \<Rightarrow> nat \<Rightarrow> rewrite_state \<Rightarrow> string \<Rightarrow>
   error + string \<times> rewrite_state" where
  "modify_step tool_names layer_positions tool_sequence i st line =
     (let st1 = advance_layer layer_positions tool_sequence i st
      in case current_tool st1 of
           None \<Rightarrow> Inr (line, st1)
         | Some cur \<Rightarrow>
             (case rewrite_line tool_names cur (active_tool st1) line of
                Inl e \<Rightarrow> Inl e
              | Inr (out, act) \<Rightarrow> Inr (out, st1\<lparr>active_tool := act\<rparr>)))"

text \<open>
  The loop \<^verbatim>\<open>for i, line in enumerate(modified_gcode)\<close>, from line \<open>i\<close> on.
  An exception ends the pass without a result.
\<close>

fun modify_loop ::
  "string list \<Rightarrow> nat list \<Rightarrow> nat list \<Rightarrow> nat \<Rightarrow> rewrite_state \<Rightarrow> string list \<Rightarrow>
   error + string list" where
  "modify_loop tool_names layer_positions tool_sequence i st [] = Inr []"
| "modify_loop tool_names layer_positions tool_sequence i st (line # rest) =
     (case modify_step tool_names layer_positions tool_sequence i st line of
        Inl e \<Rightarrow> Inl e
      | Inr (out, st') \<Rightarrow>
          (case modify_loop tool_names layer_positions tool_sequence (Suc i) st' rest of
             Inl e \<Rightarrow> Inl e
           | Inr outs \<Rightarrow> Inr (out # outs)))"

definition modify_gcode ::
  "string list \<Rightarrow> string list \<Rightarrow> nat list \<Rightarrow> nat list \<Rightarrow> error + string list" where
  "modify_gcode tool_names gcode_lines layer_positions tool_sequence =
     modify_loop tool_names layer_positions tool_sequence 0 initial_state gcode_lines"

subsection \<open>Notions the properties of the pass are stated with\<close>

text \<open>
  Every tool id the pass may have to name has a name: the planned tools, and the tool
  of each heater preselect in the document.
\<close>

definition names_cover :: "string list \<Rightarrow> string list \<Rightarrow> nat list \<Rightarrow> bool" where
  "names_cover tool_names gcode_lines tool_sequence =
     (list_all (\<lambda>t. t < length tool_names) tool_sequence \<and>
      list_all (\<lambda>line. case m104_search line of None \<Rightarrow> True | Some old \<Rightarrow> old < length tool_names)
        gcode_lines)"

text \<open>A pattern's search found a command, and the command names a tool other than \<open>cur\<close>.\<close>

definition names_other :: "nat option \<Rightarrow> nat \<Rightarrow> bool" where
  "names_other found cur = (case found of None \<Rightarrow> False | Some old \<Rightarrow> old \<noteq> cur)"

text \<open>
  An output line is a rewrite of an input line for the planned tool \<open>cur\<close>: one of
  the three substitutions of the tool token, or the replacement heater command.
\<close>

definition rewrite_of :: "string list \<Rightarrow> nat \<Rightarrow> string \<Rightarrow> string \<Rightarrow> bool" where
  "rewrite_of tool_names cur line out =
     (out = sub_all_T (tool_token cur) line \<or>
      out = sub_word_T (tool_token cur) None line \<or>
      out = sub_start_T (tool_token cur) line \<or>
      (case m104_search line of
         None \<Rightarrow> False
       | Some old \<Rightarrow> m104_command tool_names old cur line = Inr out))"

text \<open>An output line is a comment that starts with the whole input line.\<close>

definition annotation_of :: "string \<Rightarrow> string \<Rightarrow> bool" where
  "annotation_of line out = (take (length line + 2) out = ''; '' @ line)"

definition line_kept :: "string list \<Rightarrow> nat list \<Rightarrow> string \<Rightarrow> string \<Rightarrow> bool" where
  "line_kept tool_names tool_sequence line out =
     (out = line \<or> list_ex (\<lambda>cur. rewrite_of tool_names cur line out) tool_sequence \<or>
      annotation_of line out)"

text \<open>
  The body of the loop as the specification words the case of several matching
  patterns: edits accumulate, every stage reading the text the stage before it left.
  The source does not do this (its stages all read the input line); the definition is
  here to be compared with \<open>rewrite_line\<close>.
\<close>

definition spec_rewrite_line_accumulating ::
  "string list \<Rightarrow> nat \<Rightarrow> nat option \<Rightarrow> string \<Rightarrow> error + string \<times> nat option" where
  "spec_rewrite_line_accumulating tool_names cur active line =
     (case park_stage tool_names cur active line of
        Inl e \<Rightarrow> Inl e
      | Inr (Skip out act) \<Rightarrow> Inr (out, act)
      | Inr (Next m0 a0) \<Rightarrow>
     (case pickup_stage tool_names cur a0 m0 of
        Inl e \<Rightarrow> Inl e
      | Inr (Skip out act) \<Rightarrow> Inr (out, act)
      | Inr (Next m1 a1) \<Rightarrow>
     (case m104_stage tool_names cur a1 m1 m1 of
        Inl e \<Rightarrow> Inl e
      | Inr (Skip out act) \<Rightarrow> Inr (out, act)
      | Inr (Next m2 a2) \<Rightarrow>
          (case tool_stage cur a2 m2 m2 of
             (m3, a3) \<Rightarrow> Inr (simple_stage cur a3 m3 m3)))))"

text \<open>
  The tool planned for line \<open>i\<close>: the current tool after the layer boundaries of the
  lines \<open>0\<close> to \<open>i\<close>. It depends on the layer positions and the tool sequence only.
\<close>

definition planned_tool :: "nat list \<Rightarrow> nat list \<Rightarrow> nat \<Rightarrow> nat option" where
  "planned_tool layer_positions tool_sequence i =
     current_tool
       (foldl (\<lambda>st j. advance_layer layer_positions tool_sequence j st) initial_state [0..<Suc i])"

text \<open>
  A line is settled for the tool \<open>cur\<close> when none of the four patterns that carry a
  tool id finds a command naming another tool in it.
\<close>

definition settled :: "nat \<Rightarrow> string \<Rightarrow> bool" where
  "settled cur line =
     (\<not> names_other (pickup_search line) cur \<and> \<not> names_other (m104_search line) cur \<and>
      \<not> names_other (tool_search line) cur \<and> \<not> names_other (simple_search line) cur)"

text \<open>
  Every tool token of a text (a \<^verbatim>\<open>T\<close> with digits after it) carries the
  digits \<open>d\<close>.
\<close>

fun tool_tokens_are :: "string \<Rightarrow> string \<Rightarrow> bool" where
  "tool_tokens_are d [] = True"
| "tool_tokens_are d (c # cs) =
     ((c = CHR ''T'' \<and> takeWhile is_digit cs \<noteq> [] \<longrightarrow> takeWhile is_digit cs = d) \<and>
      tool_tokens_are d cs)"

section \<open>Conversion of a file\<close>

subsection \<open>Layer Locator\<close>





subsection \<open>Files\<close>




subsection \<open>The caller: \<^verbatim>\<open>App.process_gcode\<close>\<close>


text \<open>
  Lines 287 to 289, \<^verbatim>\<open>tool_counts[tool] += 1\<close> for every tool of the
  sequence, and lines 294 to 299, the names of the first twenty layers' tools.
\<close>

fun count_tools :: "nat list \<Rightarrow> nat list \<Rightarrow> error + nat list" where
  "count_tools tool_counts [] = Inr tool_counts"
| "count_tools tool_counts (tool # rest) =
     (if tool < length tool_counts
      then count_tools (tool_counts[tool := tool_counts ! tool + 1]) rest
      else Inl IndexError)"

definition report :: "string list \<Rightarrow> nat \<Rightarrow> nat list \<Rightarrow> error + nat list" where
  "report tool_names_ui total_layers tool_sequence =
     (case count_tools (replicate (length tool_names_ui) 0) tool_sequence of
        Inl e \<Rightarrow> Inl e
      | Inr tool_counts \<Rightarrow>
          if list_all (\<lambda>i. i < length tool_sequence \<and> tool_sequence ! i < length tool_names_ui)
               [0..<min 20 total_layers]
          then Inr tool_counts else Inl IndexError)"




section \<open>Properties\<close>

subsection \<open>Tool Sequence Planner\<close>

lemma whole_layers_eq:
  "whole_layers n t k s = s @ replicate (min k (n - length s)) t"
proof (induction k arbitrary: s)
  case 0
  show ?case by simp
next
  case (Suc k)
  show ?case
  proof (cases "length s < n")
    case True
    then have "min (Suc k) (n - length s) = Suc (min k (n - Suc (length s)))"
      by auto
    with True Suc show ?thesis
      by (simp add: replicate_append_same)
  next
    case False
    then show ?thesis by simp
  qed
qed

lemma sweep_eq:
  "sweep n ps s = s @ take (n - length s) (concat (map allotment ps))"
proof (induction ps arbitrary: s)
  case Nil
  show ?case by simp
next
  case (Cons p ps)
  obtain t c where p: "p = (t, c)" by (cases p)
  define k where "k = nat (py_int c)"
  define s1 where "s1 = whole_layers n t k s"
  define s2 where "s2 = (if py_mod1 c > 0 \<and> length s1 < n then s1 @ [t] else s1)"
  have s1: "s1 = s @ replicate (min k (n - length s)) t"
    by (simp add: s1_def whole_layers_eq)
  have step: "sweep n (p # ps) s = (if length s2 \<ge> n then s2 else sweep n ps s2)"
    by (simp add: p s2_def s1_def k_def Let_def)
  have allot: "allotment p = replicate (k + (if py_mod1 c > 0 then 1 else 0)) t"
    by (simp add: allotment_def p k_def)
  have s2: "s2 = s @ take (n - length s) (allotment p)"
  proof (cases "py_mod1 c > 0")
    case frac: True
    then have a: "allotment p = replicate (Suc k) t" by (simp add: allot)
    show ?thesis
    proof (cases "length s1 < n")
      case True
      with s1 have "k < n - length s" by (auto simp: min_def split: if_splits)
      then have "take (n - length s) (replicate (Suc k) t) = replicate (Suc k) t"
        and "min k (n - length s) = k" by simp_all
      with True frac have "s2 = s @ (replicate k t @ [t])"
        by (simp add: s2_def s1)
      also have "replicate k t @ [t] = take (n - length s) (allotment p)"
        using \<open>k < n - length s\<close> by (simp add: a replicate_append_same)
      finally show ?thesis .
    next
      case False
      with s1 have le: "n - length s \<le> k" by (auto simp: min_def split: if_splits)
      then have "take (n - length s) (replicate (Suc k) t) = replicate (n - length s) t"
        and "min k (n - length s) = n - length s" by (simp_all add: min_def del: replicate_Suc)
      with False frac show ?thesis
        by (simp add: s2_def s1 a del: replicate_Suc take_Suc_Cons)
    qed
  next
    case False
    then show ?thesis by (simp add: s2_def s1 allot min.commute)
  qed
  show ?case
  proof (cases "length s2 \<ge> n")
    case True
    then have "n - length s \<le> length (allotment p)"
      by (simp add: s2)
    with True show ?thesis
      by (simp add: step s2)
  next
    case False
    then have short: "length (allotment p) < n - length s"
      by (simp add: s2 min_def split: if_splits)
    then have s2': "s2 = s @ allotment p" by (simp add: s2)
    have "sweep n (p # ps) s = sweep n ps s2" using False by (simp add: step)
    also have "\<dots> = s2 @ take (n - length s2) (concat (map allotment ps))"
      by (rule Cons.IH)
    also have "\<dots> = s @ take (n - length s) (concat (map allotment (p # ps)))"
      using short by (simp add: s2')
    finally show ?thesis .
  qed
qed

lemma plan_loop_eq:
  assumes "full_sweep pat \<noteq> []"
  shows "n - length s \<le> k \<Longrightarrow>
    plan_loop n pat s = Some (s @ take (n - length s) (concat (replicate k (full_sweep pat))))"
proof (induction k arbitrary: s)
  case 0
  then show ?case by (subst plan_loop.simps) simp
next
  case (Suc k)
  show ?case
  proof (cases "length s < n")
    case False
    then show ?thesis by (subst plan_loop.simps) simp
  next
    case True
    define S where "S = full_sweep pat"
    define m where "m = n - length s"
    define s' where "s' = sweep n (enumerate 0 pat) s"
    have s': "s' = s @ take m S"
      by (simp add: s'_def sweep_eq S_def full_sweep_def m_def)
    have "S \<noteq> []" using assms by (simp add: S_def)
    then obtain x xs where S: "S = x # xs" by (cases S) auto
    have "0 < m" using True by (simp add: m_def)
    then have len: "n - length s' = m - length S" and "m - length S \<le> k"
      using Suc.prems unfolding s' S m_def by (auto simp: min_def)
    then have "plan_loop n pat s' = Some (s' @ take (m - length S) (concat (replicate k S)))"
      using Suc.IH [of s'] by (simp add: S_def)
    moreover have "plan_loop n pat s = plan_loop n pat s'"
      using True by (subst plan_loop.simps) (simp add: s'_def)
    ultimately show ?thesis
      by (simp add: s' S_def [symmetric] m_def [symmetric])
  qed
qed

lemma calculate_tool_distribution_eq:
  assumes "full_sweep pat \<noteq> []"
  shows "calculate_tool_distribution n pat = Some (take n (concat (replicate n (full_sweep pat))))"
  using plan_loop_eq [OF assms, of n "[]" n] by (simp add: calculate_tool_distribution_def)

lemma calculate_tool_distribution_0: "calculate_tool_distribution 0 pat = Some []"
  unfolding calculate_tool_distribution_def by (subst plan_loop.simps) simp

lemma length_allotment_pos: "0 < c \<Longrightarrow> allotment (t, c) \<noteq> []"
proof -
  assume c: "0 < c"
  show ?thesis
  proof (cases "py_mod1 c > 0")
    case True
    then show ?thesis by (simp add: allotment_def)
  next
    case False
    have "of_int \<lfloor>c\<rfloor> \<le> c" by simp
    with False have "c = of_int \<lfloor>c\<rfloor>" unfolding py_mod1_def by linarith
    with c have "0 < \<lfloor>c\<rfloor>" by (metis of_int_0_less_iff)
    with c show ?thesis by (simp add: allotment_def py_int_def)
  qed
qed

lemma full_sweep_nonempty:
  assumes "\<exists>c\<in>set pat. 0 < c"
  shows "full_sweep pat \<noteq> []"
proof -
  from assms obtain c where "c \<in> set pat" "0 < c" by blast
  then obtain i where i: "i < length pat" "pat ! i = c" by (auto simp: in_set_conv_nth)
  then have "(i, c) \<in> set (enumerate 0 pat)" by (auto simp: in_set_enumerate_eq)
  moreover have "allotment (i, c) \<noteq> []" using \<open>0 < c\<close> by (rule length_allotment_pos)
  ultimately show ?thesis by (force simp: full_sweep_def)
qed

lemma valid_pattern_pos: "valid_pattern pat \<Longrightarrow> \<exists>c\<in>set pat. 0 < c"
proof (rule ccontr)
  assume v: "valid_pattern pat" and "\<not> (\<exists>c\<in>set pat. 0 < c)"
  then have "\<forall>c\<in>set pat. c \<le> 0" by auto
  then have "sum_list pat \<le> 0" by (induction pat) auto
  with v show False by (simp add: valid_pattern_def)
qed

lemma length_allotment: "length (allotment (t, c)) = per_sweep c"
  by (simp add: allotment_def per_sweep_def)

lemma allotment_replicate: "allotment (t, c) = replicate (per_sweep c) t"
  by (simp add: allotment_def per_sweep_def)

lemma per_sweep_nonneg:
  assumes "0 \<le> c"
  shows "int (per_sweep c) = \<lceil>c\<rceil>"
proof -
  have i: "py_int c = \<lfloor>c\<rfloor>" using assms by (simp add: py_int_def)
  have fl: "0 \<le> \<lfloor>c\<rfloor>" using assms by simp
  show ?thesis
  proof (cases "c = of_int \<lfloor>c\<rfloor>")
    case True
    then have "py_mod1 c = 0" by (simp add: py_mod1_def)
    moreover have "\<lceil>c\<rceil> = \<lfloor>c\<rfloor>" using True by (simp add: ceiling_altdef)
    ultimately show ?thesis using fl by (simp add: per_sweep_def i)
  next
    case False
    have "of_int \<lfloor>c\<rfloor> \<le> c" by simp
    with False have "0 < py_mod1 c" unfolding py_mod1_def by linarith
    moreover have "\<lceil>c\<rceil> = \<lfloor>c\<rfloor> + 1" using False by (simp add: ceiling_altdef)
    ultimately show ?thesis using fl by (simp add: per_sweep_def i)
  qed
qed

lemma length_enumerate_sweep:
  "length (concat (map allotment (enumerate i pat))) = sum_list (map per_sweep pat)"
  by (induction pat arbitrary: i) (simp_all add: length_allotment)

lemma length_full_sweep: "length (full_sweep pat) = sum_list (map per_sweep pat)"
  by (simp add: full_sweep_def length_enumerate_sweep)

lemma sum_per_sweep_nonneg:
  "list_all (\<lambda>c. 0 \<le> c) pat \<Longrightarrow> int (sum_list (map per_sweep pat)) = (\<Sum>c\<leftarrow>pat. \<lceil>c\<rceil>)"
  by (induction pat) (simp_all add: per_sweep_nonneg)

lemma count_list_replicate: "count_list (replicate k x) t = (if x = t then k else 0)"
  by (induction k) auto

lemma count_enumerate_sweep:
  "count_list (concat (map allotment (enumerate i pat))) t =
     (if i \<le> t \<and> t < i + length pat then per_sweep (pat ! (t - i)) else 0)"
proof (induction pat arbitrary: i)
  case Nil
  show ?case by simp
next
  case (Cons c cs)
  show ?case
  proof (cases "t = i")
    case True
    have "count_list (concat (map allotment (enumerate (Suc i) cs))) t = 0"
      using Cons.IH [of "Suc i"] True by simp
    then show ?thesis
      by (simp add: True allotment_replicate count_list_replicate)
  next
    case False
    then have "(i \<le> t \<and> t < i + length (c # cs)) = (Suc i \<le> t \<and> t < Suc i + length cs)"
      by auto
    moreover have "Suc i \<le> t \<Longrightarrow> (c # cs) ! (t - i) = cs ! (t - Suc i)"
      by (simp add: Suc_diff_le)
    ultimately show ?thesis using False
      by (simp add: Cons.IH allotment_replicate count_list_replicate del: nth_Cons_Suc)
  qed
qed

lemma count_full_sweep:
  "t < length pat \<Longrightarrow> count_list (full_sweep pat) t = per_sweep (pat ! t)"
  by (simp add: full_sweep_def count_enumerate_sweep)

lemma set_full_sweep: "set (full_sweep pat) \<subseteq> {..<length pat}"
proof
  fix t assume "t \<in> set (full_sweep pat)"
  then have "count_list (full_sweep pat) t \<noteq> 0" by (simp add: count_list_0_iff)
  then show "t \<in> {..<length pat}"
    by (auto simp: full_sweep_def count_enumerate_sweep split: if_splits)
qed

lemma length_concat_replicate: "length (concat (replicate k xs)) = k * length xs"
  by (induction k) simp_all

lemma count_concat_replicate: "count_list (concat (replicate k xs)) t = k * count_list xs t"
  by (induction k) simp_all

lemma count_take_le: "count_list (take r xs) t \<le> count_list xs t"
proof -
  have "count_list xs t = count_list (take r xs) t + count_list (drop r xs) t"
    using count_list_append [of "take r xs" "drop r xs" t] by simp
  then show ?thesis by simp
qed

lemma take_concat_replicate:
  assumes "xs \<noteq> []"
  shows "n \<le> k * length xs \<Longrightarrow>
    take n (concat (replicate k xs)) =
      concat (replicate (n div length xs) xs) @ take (n mod length xs) xs"
proof (induction k arbitrary: n)
  case 0
  then show ?case by simp
next
  case (Suc k)
  from assms have pos: "0 < length xs" by simp
  show ?case
  proof (cases "n < length xs")
    case True
    then show ?thesis by simp
  next
    case False
    then have ge: "length xs \<le> n" by simp
    then have "n - length xs \<le> k * length xs" using Suc.prems by simp
    then have IH: "take (n - length xs) (concat (replicate k xs)) =
        concat (replicate ((n - length xs) div length xs) xs) @ take ((n - length xs) mod length xs) xs"
      by (rule Suc.IH)
    have d: "n div length xs = Suc ((n - length xs) div length xs)"
      by (rule le_div_geq [OF pos ge])
    have m: "n mod length xs = (n - length xs) mod length xs"
      by (rule le_mod_geq [OF ge])
    have "take n (concat (replicate (Suc k) xs)) =
        xs @ take (n - length xs) (concat (replicate k xs))"
      using ge by simp
    also have "\<dots> = concat (replicate (Suc ((n - length xs) div length xs)) xs) @
        take ((n - length xs) mod length xs) xs"
      by (simp only: IH replicate_Suc concat.simps append_assoc)
    also have "\<dots> = concat (replicate (n div length xs) xs) @ take (n mod length xs) xs"
      by (simp only: d [symmetric] m [symmetric])
    finally show ?thesis .
  qed
qed

lemma count_plan:
  assumes "xs \<noteq> []"
  shows "\<exists>x \<le> count_list xs t.
    count_list (take n (concat (replicate n xs))) t = (n div length xs) * count_list xs t + x"
proof -
  from assms have "1 \<le> length xs" by (cases xs) simp_all
  then have "n * 1 \<le> n * length xs" by (rule mult_le_mono2)
  then have "n \<le> n * length xs" by simp
  then have "take n (concat (replicate n xs)) =
      concat (replicate (n div length xs) xs) @ take (n mod length xs) xs"
    by (rule take_concat_replicate [OF assms])
  then have "count_list (take n (concat (replicate n xs))) t =
      (n div length xs) * count_list xs t + count_list (take (n mod length xs) xs) t"
    by (simp add: count_concat_replicate)
  moreover have "count_list (take (n mod length xs) xs) t \<le> count_list xs t"
    by (rule count_take_le)
  ultimately show ?thesis by blast
qed

lemma length_plan:
  assumes "xs \<noteq> []"
  shows "length (take n (concat (replicate n xs))) = n"
proof -
  from assms have "1 \<le> length xs" by (cases xs) simp_all
  then have "n * 1 \<le> n * length xs" by (rule mult_le_mono2)
  then show ?thesis by (auto simp: length_concat_replicate min_def)
qed

lemma allotment_nonneg:
  assumes "0 \<le> c"
  shows "allotment (t, c) = replicate (nat \<lfloor>c\<rfloor>) t @ (if frac c \<noteq> 0 then [t] else [])"
proof -
  have "py_int c = \<lfloor>c\<rfloor>" using assms by (simp add: py_int_def)
  moreover have "py_mod1 c = frac c" by (simp add: py_mod1_def frac_def)
  moreover have "(0 < frac c) = (frac c \<noteq> 0)"
    using frac_ge_0 [of c] by linarith
  ultimately show ?thesis
    by (simp add: allotment_def replicate_append_same)
qed

lemma full_sweep_spec:
  assumes "list_all (\<lambda>c. 0 \<le> c) pat"
  shows "full_sweep pat = spec_sweep pat"
proof -
  have "\<forall>p\<in>set (enumerate 0 pat). 0 \<le> snd p"
    using assms by (auto simp: in_set_enumerate_eq list_all_iff)
  then have "map allotment (enumerate 0 pat) =
      map (\<lambda>(tool, count). replicate (nat \<lfloor>count\<rfloor>) tool @ (if frac count \<noteq> 0 then [tool] else []))
        (enumerate 0 pat)"
    by (intro map_cong refl) (auto simp: allotment_nonneg simp del: replicate_Suc)
  then show ?thesis by (simp only: full_sweep_def spec_sweep_def)
qed

text \<open>
  C1. For a valid ratio pattern and any layer count, the planner returns the repeated
  sweep of the specification, cut at \<open>n\<close> entries: each sweep runs over the tools
  from index 0, a tool's id \<open>floor(count)\<close> times and once more for a fractional
  count, and the sequence stops at length \<open>n\<close> even inside a tool's run.
\<close>

theorem planner_sweeps:
  "valid_pattern pat \<Longrightarrow> calculate_tool_distribution n pat = Some (spec_plan n pat)"
proof -
  assume v: "valid_pattern pat"
  then have "full_sweep pat \<noteq> []"
    by (intro full_sweep_nonempty valid_pattern_pos)
  moreover have "full_sweep pat = spec_sweep pat"
    using v by (intro full_sweep_spec) (simp add: valid_pattern_def)
  ultimately show ?thesis
    by (simp add: calculate_tool_distribution_eq spec_plan_def)
qed

theorem planner_sweeps_witness:
  "valid_pattern [1, 1] \<and> calculate_tool_distribution 4 [1, 1] = Some [0, 1, 0, 1] \<and>
   valid_pattern [1 / 2, 1 / 2] \<and> calculate_tool_distribution 4 [1 / 2, 1 / 2] = Some [0, 1, 0, 1]"
proof -
  have v1: "valid_pattern [1, 1]" and v2: "valid_pattern [1 / 2, 1 / 2]"
    by (simp_all add: valid_pattern_def)
  have "spec_plan 4 [1, 1] = [0, 1, 0, 1]" by code_simp
  moreover have "spec_plan 4 [1 / 2, 1 / 2] = [0, 1, 0, 1]" by code_simp
  ultimately show ?thesis
    using v1 v2 planner_sweeps [OF v1, of 4] planner_sweeps [OF v2, of 4] by simp
qed

text \<open>
  C2. For a valid ratio pattern the planner returns, and what it returns has exactly
  \<open>n\<close> entries; for \<open>n = 0\<close> it returns the empty sequence whatever the
  pattern is (the empty and the all-zero pattern included).
\<close>

theorem planner_length:
  "(valid_pattern pat \<longrightarrow>
      (\<exists>tool_sequence. calculate_tool_distribution n pat = Some tool_sequence \<and>
         length tool_sequence = n)) \<and>
   calculate_tool_distribution 0 pat = Some []"
proof (intro conjI impI)
  assume v: "valid_pattern pat"
  then have ne: "full_sweep pat \<noteq> []"
    by (intro full_sweep_nonempty valid_pattern_pos)
  then show "\<exists>tool_sequence. calculate_tool_distribution n pat = Some tool_sequence \<and>
      length tool_sequence = n"
    using length_plan [OF ne, of n] by (simp add: calculate_tool_distribution_eq [OF ne])
next
  show "calculate_tool_distribution 0 pat = Some []"
    by (rule calculate_tool_distribution_0)
qed

theorem planner_length_witness:
  "valid_pattern [2, 1] \<and>
   (\<exists>tool_sequence. calculate_tool_distribution 6 [2, 1] = Some tool_sequence \<and>
      length tool_sequence = 6) \<and>
   calculate_tool_distribution 0 [0, 0] = Some []"
proof -
  have v: "valid_pattern [2, 1]" by (simp add: valid_pattern_def)
  from planner_length [of "[2, 1]" 6] v
  have a: "\<exists>tool_sequence. calculate_tool_distribution 6 [2, 1] = Some tool_sequence \<and>
      length tool_sequence = 6"
    by blast
  from planner_length [of "[0, 0]" 0]
  have b: "calculate_tool_distribution 0 [0, 0] = Some []"
    by blast
  from v a b show ?thesis by blast
qed

lemma sum_ceiling_Ints:
  "list_all (\<lambda>c. c \<in> \<int>) pat \<Longrightarrow> (of_int (\<Sum>c\<leftarrow>pat. \<lceil>c\<rceil>) :: rat) = sum_list pat"
  by (induction pat) (auto elim: Ints_cases)

lemma share_bound_int:
  fixes x w r L :: int
  assumes "0 \<le> x" "x \<le> w" "0 \<le> r" "r \<le> L"
  shows "\<bar>x * L - r * w\<bar> \<le> w * L"
proof -
  have w: "0 \<le> w" and L: "0 \<le> L" using assms by linarith+
  have a: "x * L \<le> w * L" using assms(2) L by (rule mult_right_mono)
  have b: "r * w \<le> L * w" using assms(4) w by (rule mult_right_mono)
  have c: "0 \<le> x * L" using assms(1) L by (rule mult_nonneg_nonneg)
  have d: "0 \<le> r * w" using assms(3) w by (rule mult_nonneg_nonneg)
  have e: "L * w = w * L" by (rule mult.commute)
  from a b c d e show ?thesis by linarith
qed

lemma share_bound:
  fixes cnt n w L q x r :: nat
  assumes cnt: "cnt = q * w + x" and n: "n = q * L + r"
    and x: "x \<le> w" and r: "r < L"
  shows "\<bar>(of_nat cnt :: rat) - of_nat n * (of_nat w / of_nat L)\<bar> \<le> of_nat w"
proof -
  have L: "0 < L" using r by simp
  have "\<bar>int x * int L - int r * int w\<bar> \<le> int w * int L"
    using x r by (intro share_bound_int) simp_all
  moreover have "int cnt * int L - int n * int w = int x * int L - int r * int w"
    by (simp add: cnt n algebra_simps)
  ultimately have k: "\<bar>int cnt * int L - int n * int w\<bar> \<le> int w * int L" by simp
  have Lr: "(0::rat) < of_nat L" using L by simp
  have "(of_nat cnt :: rat) - of_nat n * (of_nat w / of_nat L) =
      of_int (int cnt * int L - int n * int w) / of_nat L"
    using L by (simp add: field_simps)
  then have "\<bar>(of_nat cnt :: rat) - of_nat n * (of_nat w / of_nat L)\<bar> =
      \<bar>of_int (int cnt * int L - int n * int w)\<bar> / of_nat L"
    using Lr by (simp only: abs_divide abs_of_pos)
  also have "\<dots> = of_int \<bar>int cnt * int L - int n * int w\<bar> / of_nat L"
    by (simp only: of_int_abs)
  also have "\<dots> \<le> of_int (int w * int L) / of_nat L"
  proof (rule divide_right_mono)
    show "(of_int \<bar>int cnt * int L - int n * int w\<bar> :: rat) \<le> of_int (int w * int L)"
      using k by (simp only: of_int_le_iff)
    show "(0::rat) \<le> of_nat L" by simp
  qed
  also have "\<dots> = of_nat w" using L by simp
  finally show ?thesis .
qed

text \<open>
  C7, as the code has it. For a valid pattern the plan has exactly \<open>n\<close> entries, and
  the number of layers of tool \<open>t\<close> differs from \<open>n\<close> times the tool's share of a
  sweep by at most the tool's per-sweep allotment (its count rounded up), so the
  fraction of layers converges to that share as \<open>n\<close> grows. The share of a sweep
  is the share of the pattern sum when every count is a whole number.
\<close>

theorem planner_share:
  "valid_pattern pat \<Longrightarrow> t < length pat \<Longrightarrow>
   (\<exists>tool_sequence. calculate_tool_distribution n pat = Some tool_sequence \<and>
      length tool_sequence = n \<and>
      \<bar>of_nat (count_list tool_sequence t) - of_nat n * sweep_share pat t\<bar>
        \<le> of_int \<lceil>pat ! t\<rceil>) \<and>
   (list_all (\<lambda>c. c \<in> \<int>) pat \<longrightarrow> sweep_share pat t = pat ! t / sum_list pat)"
proof (intro conjI impI)
  assume v: "valid_pattern pat" and t: "t < length pat"
  define S where "S = full_sweep pat"
  define L where "L = length S"
  define w where "w = per_sweep (pat ! t)"
  define plan where "plan = take n (concat (replicate n S))"
  have nonneg: "list_all (\<lambda>c. 0 \<le> c) pat" using v by (simp add: valid_pattern_def)
  have ne: "S \<noteq> []"
    unfolding S_def using v by (intro full_sweep_nonempty valid_pattern_pos)
  have calc: "calculate_tool_distribution n pat = Some plan"
    using ne unfolding S_def plan_def by (rule calculate_tool_distribution_eq)
  have len: "length plan = n"
    unfolding plan_def using ne by (rule length_plan)
  have cS: "count_list S t = w"
    unfolding S_def w_def using t by (rule count_full_sweep)
  obtain x where x: "x \<le> w" and cnt: "count_list plan t = (n div L) * w + x"
    using count_plan [OF ne, of t n] unfolding plan_def L_def cS by blast
  have Lpos: "0 < L" using ne by (simp add: L_def)
  have n: "n = (n div L) * L + n mod L" by simp
  have r: "n mod L < L" using Lpos by simp
  have bound: "\<bar>(of_nat (count_list plan t) :: rat) - of_nat n * (of_nat w / of_nat L)\<bar> \<le> of_nat w"
    using cnt n x r by (rule share_bound)
  have "0 \<le> pat ! t" using nonneg t by (simp add: list_all_length)
  then have wc: "int w = \<lceil>pat ! t\<rceil>" unfolding w_def by (rule per_sweep_nonneg)
  have Lc: "int L = (\<Sum>c\<leftarrow>pat. \<lceil>c\<rceil>)"
    unfolding L_def S_def length_full_sweep using nonneg by (rule sum_per_sweep_nonneg)
  have w': "(of_nat w :: rat) = of_int \<lceil>pat ! t\<rceil>"
    by (simp only: wc [symmetric] of_int_of_nat_eq)
  have L': "(of_nat L :: rat) = of_int (\<Sum>c\<leftarrow>pat. \<lceil>c\<rceil>)"
    by (simp only: Lc [symmetric] of_int_of_nat_eq)
  have "\<bar>(of_nat (count_list plan t) :: rat) - of_nat n * sweep_share pat t\<bar>
      \<le> of_int \<lceil>pat ! t\<rceil>"
    using bound by (simp only: sweep_share_def w' L')
  with calc len
  show "\<exists>tool_sequence. calculate_tool_distribution n pat = Some tool_sequence \<and>
      length tool_sequence = n \<and>
      \<bar>of_nat (count_list tool_sequence t) - of_nat n * sweep_share pat t\<bar>
        \<le> of_int \<lceil>pat ! t\<rceil>"
    by blast
next
  assume t: "t < length pat" and ints: "list_all (\<lambda>c. c \<in> \<int>) pat"
  then have "pat ! t \<in> \<int>" by (simp add: list_all_length)
  then have "(of_int \<lceil>pat ! t\<rceil> :: rat) = pat ! t" by (auto elim: Ints_cases)
  then show "sweep_share pat t = pat ! t / sum_list pat"
    using ints by (simp add: sweep_share_def sum_ceiling_Ints)
qed

theorem planner_share_witness:
  "valid_pattern [3 / 2, 1] \<and> (0::nat) < length [3 / 2, 1 :: rat] \<and>
   (\<exists>tool_sequence. calculate_tool_distribution 30 [3 / 2, 1] = Some tool_sequence \<and>
      length tool_sequence = 30 \<and>
      \<bar>of_nat (count_list tool_sequence 0) - of_nat 30 * sweep_share [3 / 2, 1] 0\<bar>
        \<le> of_int \<lceil>[3 / 2, 1 :: rat] ! 0\<rceil>)"
proof -
  have v: "valid_pattern [3 / 2, 1]" by (simp add: valid_pattern_def)
  have t: "(0::nat) < length [3 / 2, 1 :: rat]" by simp
  from planner_share [OF v t, of 30] v t show ?thesis by blast
qed

text \<open>
  The bound of one layer that C7 states fails: with the pattern \<open>[4, 4]\<close> and four
  layers every layer goes to tool 0, two layers more than its half share.
\<close>

theorem planner_share_counterexample:
  "valid_pattern [4, 4] \<and> calculate_tool_distribution 4 [4, 4] = Some [0, 0, 0, 0] \<and>
   \<not> \<bar>of_nat (count_list [0, 0, 0, 0 :: nat] 0) - of_nat 4 * (4 / sum_list [4, 4 :: rat])\<bar> \<le> 1"
proof -
  have "valid_pattern [4, 4]" by (simp add: valid_pattern_def)
  moreover have "calculate_tool_distribution 4 [4, 4] = Some [0, 0, 0, 0]" by code_simp
  moreover have "\<not> \<bar>of_nat (count_list [0, 0, 0, 0 :: nat] 0) - of_nat 4 * (4 / sum_list [4, 4 :: rat])\<bar> \<le> (1::rat)"
    by simp
  ultimately show ?thesis by blast
qed

subsection \<open>Command Rewriter: the stages of a line\<close>

lemma skip_note_Inr:
  "skip_note names what line cur = Inr note \<Longrightarrow>
     cur < length names \<and>
     note = ''; '' @ line @ what @ ''T'' @ str_nat cur @ '' ('' @ names ! cur @ '') is already active''"
  by (auto simp: skip_note_def tool_name_def split: if_splits)

lemma skip_note_annotation:
  "skip_note names what line cur = Inr note \<Longrightarrow> annotation_of line note"
  by (auto dest!: skip_note_Inr simp: annotation_of_def)

lemma skip_note_total:
  "cur < length names \<Longrightarrow> \<exists>note. skip_note names what line cur = Inr note"
  by (simp add: skip_note_def tool_name_def)

lemma park_stage_Skip:
  "park_stage names cur active line = Inr (Skip out act) \<Longrightarrow>
     park_search line \<and> active = Some cur \<and> act = active \<and>
     skip_note names '' - skipped parking as '' line cur = Inr out"
  by (auto simp: park_stage_def split: if_splits sum.splits)

lemma park_stage_Next:
  "park_stage names cur active line = Inr (Next m a) \<Longrightarrow>
     \<not> (park_search line \<and> active = Some cur) \<and> m = line \<and> a = active"
  by (auto simp: park_stage_def split: if_splits sum.splits)

lemma pickup_stage_Skip:
  "pickup_stage names cur active line = Inr (Skip out act) \<Longrightarrow>
     pickup_search line = Some cur \<and> active = Some cur \<and> act = active \<and>
     skip_note names '' - skipped pickup as '' line cur = Inr out"
  by (auto simp: pickup_stage_def split: if_splits sum.splits option.splits)

lemma pickup_stage_Next:
  "pickup_stage names cur active line = Inr (Next m a) \<Longrightarrow>
     (pickup_search line = None \<and> m = line \<and> a = active) \<or>
     (names_other (pickup_search line) cur \<and> m = sub_all_T (tool_token cur) line \<and> a = Some cur) \<or>
     (pickup_search line = Some cur \<and> active \<noteq> Some cur \<and> m = line \<and> a = Some cur)"
  by (auto simp: pickup_stage_def names_other_def split: if_splits sum.splits option.splits)

lemma m104_stage_Skip:
  "m104_stage names cur active line modified = Inr (Skip out act) \<Longrightarrow>
     names_other (m104_search line) cur \<and> active = Some cur \<and> act = active \<and>
     skip_note names '' - skipped as '' line cur = Inr out"
  by (auto simp: m104_stage_def names_other_def split: if_splits sum.splits option.splits)

lemma m104_stage_Next:
  "m104_stage names cur active line modified = Inr (Next m a) \<Longrightarrow>
     (\<not> names_other (m104_search line) cur \<and> m = modified \<and> a = active) \<or>
     (\<exists>old. m104_search line = Some old \<and> old \<noteq> cur \<and> active \<noteq> Some cur \<and>
        m104_command names old cur line = Inr m \<and> a = Some cur)"
  by (auto simp: m104_stage_def names_other_def split: if_splits sum.splits option.splits)

lemma tool_stage_eq:
  "tool_stage cur active line modified =
     (if names_other (tool_search line) cur
      then (sub_word_T (tool_token cur) None line, Some cur) else (modified, active))"
  by (simp add: tool_stage_def names_other_def split: option.splits)

lemma simple_stage_eq:
  "simple_stage cur active line modified =
     (if names_other (simple_search line) cur
      then (sub_start_T (tool_token cur) line, Some cur) else (modified, active))"
  by (simp add: simple_stage_def names_other_def split: option.splits)

text \<open>The four ways through the body of the loop for one line.\<close>

lemma rewrite_line_paths:
  assumes "rewrite_line names cur active line = Inr (out, act)"
  obtains
    (park) "park_search line" "active = Some cur" "act = active"
      "skip_note names '' - skipped parking as '' line cur = Inr out"
  | (pickup) "\<not> (park_search line \<and> active = Some cur)"
      "pickup_search line = Some cur" "active = Some cur" "act = active"
      "skip_note names '' - skipped pickup as '' line cur = Inr out"
  | (heater) m1 a1 where "\<not> (park_search line \<and> active = Some cur)"
      "pickup_stage names cur active line = Inr (Next m1 a1)"
      "names_other (m104_search line) cur" "a1 = Some cur" "act = a1"
      "skip_note names '' - skipped as '' line cur = Inr out"
  | (through) m1 a1 m2 a2 where "\<not> (park_search line \<and> active = Some cur)"
      "pickup_stage names cur active line = Inr (Next m1 a1)"
      "m104_stage names cur a1 line m1 = Inr (Next m2 a2)"
      "(out, act) = simple_stage cur (snd (tool_stage cur a2 line m2)) line
                      (fst (tool_stage cur a2 line m2))"
proof (cases "park_stage names cur active line")
  case (Inl e)
  with assms show ?thesis by (simp add: rewrite_line_def)
next
  case (Inr f0)
  show ?thesis
  proof (cases f0)
    case (Skip o0 b0)
    with Inr assms have "out = o0" "act = b0" by (simp_all add: rewrite_line_def)
    with Inr Skip park_stage_Skip [of names cur active line out act] park show ?thesis by simp
  next
    case (Next m0 a0)
    with Inr have p0: "\<not> (park_search line \<and> active = Some cur)" "m0 = line" "a0 = active"
      using park_stage_Next [of names cur active line m0 a0] by simp_all
    show ?thesis
    proof (cases "pickup_stage names cur active line")
      case (Inl e)
      with Inr Next p0 assms show ?thesis by (simp add: rewrite_line_def)
    next
      case f1: (Inr f1)
      show ?thesis
      proof (cases f1)
        case (Skip o1 b1)
        with Inr Next p0 f1 assms have "out = o1" "act = b1" by (simp_all add: rewrite_line_def)
        with f1 Skip pickup_stage_Skip [of names cur active line out act] p0 pickup
        show ?thesis by simp
      next
        case n1: (Next m1 a1)
        show ?thesis
        proof (cases "m104_stage names cur a1 line m1")
          case (Inl e)
          with Inr Next p0 f1 n1 assms show ?thesis by (simp add: rewrite_line_def)
        next
          case f2: (Inr f2)
          show ?thesis
          proof (cases f2)
            case (Skip o2 b2)
            with Inr Next p0 f1 n1 f2 assms have "out = o2" "act = b2"
              by (simp_all add: rewrite_line_def)
            with f2 Skip m104_stage_Skip [of names cur a1 line m1 out act] p0(1) f1 n1 heater
            show ?thesis by simp
          next
            case n2: (Next m2 a2)
            with Inr Next p0 f1 n1 f2 assms
            have "(out, act) = simple_stage cur (snd (tool_stage cur a2 line m2)) line
                      (fst (tool_stage cur a2 line m2))"
              by (simp add: rewrite_line_def split: prod.splits)
            with p0(1) f1 n1 f2 n2 through show ?thesis by simp
          qed
        qed
      qed
    qed
  qed
qed

lemma through_text:
  assumes p: "pickup_stage names cur active line = Inr (Next m1 a1)"
    and h: "m104_stage names cur a1 line m1 = Inr (Next m2 a2)"
    and f: "(out, act) = simple_stage cur (snd (tool_stage cur a2 line m2)) line
                      (fst (tool_stage cur a2 line m2))"
  shows "out =
     (if names_other (simple_search line) cur then sub_start_T (tool_token cur) line
      else if names_other (tool_search line) cur then sub_word_T (tool_token cur) None line
      else m2)"
    and "m2 = m1 \<or> (\<exists>old. m104_search line = Some old \<and> old \<noteq> cur \<and>
           m104_command names old cur line = Inr m2)"
    and "m1 = line \<or> (names_other (pickup_search line) cur \<and> m1 = sub_all_T (tool_token cur) line)"
proof -
  from f show "out =
     (if names_other (simple_search line) cur then sub_start_T (tool_token cur) line
      else if names_other (tool_search line) cur then sub_word_T (tool_token cur) None line
      else m2)"
    by (simp add: tool_stage_eq simple_stage_eq split: if_splits)
  from m104_stage_Next [OF h]
  show "m2 = m1 \<or> (\<exists>old. m104_search line = Some old \<and> old \<noteq> cur \<and>
           m104_command names old cur line = Inr m2)"
    by blast
  from pickup_stage_Next [OF p]
  show "m1 = line \<or> (names_other (pickup_search line) cur \<and> m1 = sub_all_T (tool_token cur) line)"
    by blast
qed

lemma through_active:
  assumes p: "pickup_stage names cur active line = Inr (Next m1 a1)"
    and h: "m104_stage names cur a1 line m1 = Inr (Next m2 a2)"
    and f: "(out, act) = simple_stage cur (snd (tool_stage cur a2 line m2)) line
                      (fst (tool_stage cur a2 line m2))"
  shows "act =
     (if pickup_search line \<noteq> None \<or> names_other (m104_search line) cur \<or>
         names_other (tool_search line) cur \<or> names_other (simple_search line) cur
      then Some cur else active)"
proof -
  from pickup_stage_Next [OF p]
  have a1: "a1 = (if pickup_search line \<noteq> None then Some cur else active)"
    by (auto simp: names_other_def)
  from m104_stage_Next [OF h]
  have a2: "a2 = (if names_other (m104_search line) cur then Some cur else a1)"
    by (auto simp: names_other_def)
  from f have "act =
     (if names_other (tool_search line) cur \<or> names_other (simple_search line) cur
      then Some cur else a2)"
    by (simp add: tool_stage_eq simple_stage_eq split: if_splits)
  with a1 a2 show ?thesis by simp
qed

lemma rewrite_line_kept:
  assumes "rewrite_line names cur active line = Inr (out, act)"
  shows "out = line \<or> rewrite_of names cur line out \<or> annotation_of line out"
  using assms
proof (cases rule: rewrite_line_paths)
  case park
  then show ?thesis by (simp add: skip_note_annotation)
next
  case pickup
  then show ?thesis by (simp add: skip_note_annotation)
next
  case (heater m1 a1)
  then show ?thesis by (simp add: skip_note_annotation)
next
  case (through m1 a1 m2 a2)
  note t = through_text [OF through(2,3,4)]
  from t show ?thesis
    by (auto simp: rewrite_of_def split: if_splits)
qed

lemma rewrite_line_active:
  assumes "rewrite_line names cur active line = Inr (out, act)" and "act \<noteq> active"
  shows "act = Some cur \<and>
     (pickup_search line \<noteq> None \<or> names_other (m104_search line) cur \<or>
      names_other (tool_search line) cur \<or> names_other (simple_search line) cur)"
  using assms(1)
proof (cases rule: rewrite_line_paths)
  case park
  with assms(2) show ?thesis by simp
next
  case pickup
  with assms(2) show ?thesis by simp
next
  case (heater m1 a1)
  from pickup_stage_Next [OF heater(2)] heater(4,5) assms(2)
  show ?thesis using heater(3) by auto
next
  case (through m1 a1 m2 a2)
  from through_active [OF through(2,3,4)] assms(2) show ?thesis
    by (auto split: if_splits)
qed

lemma m104_command_total:
  "old < length names \<Longrightarrow> cur < length names \<Longrightarrow> \<exists>c. m104_command names old cur line = Inr c"
  by (simp add: m104_command_def tool_name_def Let_def split: option.splits)

lemma rewrite_line_total:
  assumes cur: "cur < length names"
    and old: "\<And>old. m104_search line = Some old \<Longrightarrow> old < length names"
  shows "\<exists>r. rewrite_line names cur active line = Inr r"
proof -
  have nt: "\<And>what. \<exists>n. skip_note names what line cur = Inr n"
    using cur by (rule skip_note_total)
  have "\<exists>f. park_stage names cur active line = Inr f"
    using nt [of "'' - skipped parking as ''"] by (auto simp: park_stage_def)
  then obtain f0 where f0: "park_stage names cur active line = Inr f0" ..
  have p: "\<And>a. \<exists>f. pickup_stage names cur a line = Inr f"
    using nt [of "'' - skipped pickup as ''"]
    by (auto simp: pickup_stage_def split: option.splits)
  have h: "\<And>a m. \<exists>f. m104_stage names cur a line m = Inr f"
  proof -
    fix a m
    show "\<exists>f. m104_stage names cur a line m = Inr f"
    proof (cases "m104_search line")
      case None
      then show ?thesis by (simp add: m104_stage_def)
    next
      case (Some o1)
      then have "o1 < length names" by (rule old)
      from m104_command_total [OF this cur, of line] nt [of "'' - skipped as ''"] Some
      show ?thesis by (auto simp: m104_stage_def)
    qed
  qed
  show ?thesis
  proof (cases f0)
    case (Skip o0 b0)
    with f0 show ?thesis by (simp add: rewrite_line_def)
  next
    case (Next m0 a0)
    obtain f1 where f1: "pickup_stage names cur a0 line = Inr f1" using p by blast
    show ?thesis
    proof (cases f1)
      case (Skip o1 b1)
      with f0 Next f1 show ?thesis by (simp add: rewrite_line_def)
    next
      case n1: (Next m1 a1)
      obtain f2 where f2: "m104_stage names cur a1 line m1 = Inr f2" using h by blast
      show ?thesis
        using f0 Next f1 n1 f2 by (cases f2) (simp_all add: rewrite_line_def split: prod.splits)
    qed
  qed
qed

subsection \<open>Command Rewriter: the pass over the document\<close>

lemma advance_layer_tool:
  assumes "- 1 \<le> current_layer st"
    and "\<And>c. current_tool st = Some c \<Longrightarrow> c \<in> set ts"
    and "current_tool (advance_layer lp ts i st) = Some c"
  shows "c \<in> set ts"
proof (cases "i \<in> set lp \<and> current_layer st + 1 < int (length ts)")
  case True
  then have "nat (current_layer st + 1) < length ts" using assms(1) by linarith
  then have "ts ! nat (current_layer st + 1) \<in> set ts" by (rule nth_mem)
  with True assms(3) show ?thesis by (simp add: advance_layer_def Let_def)
next
  case False
  then have "current_tool (advance_layer lp ts i st) = current_tool st"
    by (auto simp: advance_layer_def Let_def)
  with assms(2,3) show ?thesis by simp
qed

lemma advance_layer_layer:
  "- 1 \<le> current_layer st \<Longrightarrow> - 1 \<le> current_layer (advance_layer lp ts i st)"
  by (simp add: advance_layer_def Let_def)

lemma advance_layer_frame:
  "active_tool (advance_layer lp ts i st) = active_tool st"
  "i \<notin> set lp \<Longrightarrow> advance_layer lp ts i st = st"
  by (simp_all add: advance_layer_def Let_def)

lemma modify_step_Inr:
  assumes "modify_step names lp ts i st line = Inr (out, st')"
  shows "current_layer st' = current_layer (advance_layer lp ts i st)"
    and "current_tool st' = current_tool (advance_layer lp ts i st)"
    and "current_tool st' = None \<Longrightarrow> out = line \<and> active_tool st' = active_tool st"
    and "\<And>cur. current_tool st' = Some cur \<Longrightarrow>
           rewrite_line names cur (active_tool st) line = Inr (out, active_tool st')"
  using assms
  by (auto simp: modify_step_def Let_def advance_layer_frame split: option.splits sum.splits)

lemma modify_step_total:
  assumes "\<And>cur. current_tool (advance_layer lp ts i st) = Some cur \<Longrightarrow> cur < length names"
    and "\<And>old. m104_search line = Some old \<Longrightarrow> old < length names"
  shows "\<exists>r. modify_step names lp ts i st line = Inr r"
proof (cases "current_tool (advance_layer lp ts i st)")
  case None
  then show ?thesis by (simp add: modify_step_def Let_def)
next
  case (Some cur)
  then have "cur < length names" by (rule assms(1))
  then have "\<exists>r. rewrite_line names cur (active_tool (advance_layer lp ts i st)) line = Inr r"
    using assms(2) by (rule rewrite_line_total)
  then show ?thesis using Some by (auto simp: modify_step_def Let_def)
qed

lemma modify_loop_kept:
  "modify_loop names lp ts i st lines = Inr outs \<Longrightarrow> - 1 \<le> current_layer st \<Longrightarrow>
   (\<And>c. current_tool st = Some c \<Longrightarrow> c \<in> set ts) \<Longrightarrow>
   list_all2 (line_kept names ts) lines outs"
proof (induction lines arbitrary: i st outs)
  case Nil
  then show ?case by simp
next
  case (Cons line rest)
  from Cons.prems(1) obtain out st' outs' where
    step: "modify_step names lp ts i st line = Inr (out, st')" and
    loop: "modify_loop names lp ts (Suc i) st' rest = Inr outs'" and
    outs: "outs = out # outs'"
    by (auto split: sum.splits)
  note s = modify_step_Inr [OF step]
  have layer: "- 1 \<le> current_layer st'"
    using Cons.prems(2) by (simp add: s(1) advance_layer_layer)
  have tool: "\<And>c. current_tool st' = Some c \<Longrightarrow> c \<in> set ts"
    using advance_layer_tool [OF Cons.prems(2,3)] by (simp add: s(2))
  have "line_kept names ts line out"
  proof (cases "current_tool st'")
    case None
    with s(3) show ?thesis by (simp add: line_kept_def)
  next
    case (Some cur)
    from rewrite_line_kept [OF s(4) [OF Some]] tool [OF Some]
    show ?thesis by (auto simp: line_kept_def list_ex_iff)
  qed
  moreover have "list_all2 (line_kept names ts) rest outs'"
    using loop layer tool by (rule Cons.IH)
  ultimately show ?case by (simp add: outs)
qed

lemma modify_loop_total:
  "list_all (\<lambda>t. t < length names) ts \<Longrightarrow>
   list_all (\<lambda>line. case m104_search line of None \<Rightarrow> True | Some old \<Rightarrow> old < length names) lines \<Longrightarrow>
   - 1 \<le> current_layer st \<Longrightarrow> (\<And>c. current_tool st = Some c \<Longrightarrow> c \<in> set ts) \<Longrightarrow>
   \<exists>outs. modify_loop names lp ts i st lines = Inr outs"
proof (induction lines arbitrary: i st)
  case Nil
  show ?case by simp
next
  case (Cons line rest)
  have cur: "\<And>cur. current_tool (advance_layer lp ts i st) = Some cur \<Longrightarrow> cur < length names"
    using advance_layer_tool [OF Cons.prems(3,4)] Cons.prems(1) by (auto simp: list_all_iff)
  have old: "\<And>old. m104_search line = Some old \<Longrightarrow> old < length names"
    using Cons.prems(2) by simp
  from modify_step_total [OF cur old] obtain out st' where
    step: "modify_step names lp ts i st line = Inr (out, st')"
    by fastforce
  note s = modify_step_Inr [OF step]
  have layer: "- 1 \<le> current_layer st'"
    using Cons.prems(3) by (simp add: s(1) advance_layer_layer)
  have tool: "\<And>c. current_tool st' = Some c \<Longrightarrow> c \<in> set ts"
    using advance_layer_tool [OF Cons.prems(3,4)] by (simp add: s(2))
  have "list_all (\<lambda>line. case m104_search line of None \<Rightarrow> True | Some old \<Rightarrow> old < length names) rest"
    using Cons.prems(2) by simp
  from Cons.IH [OF Cons.prems(1) this layer tool, of "Suc i"] obtain outs where
    "modify_loop names lp ts (Suc i) st' rest = Inr outs"
    by blast
  with step show ?case by simp
qed

lemma nth_list_all2:
  "length ys = length xs \<and> (\<forall>i < length xs. P (xs ! i) (ys ! i)) \<Longrightarrow> list_all2 P xs ys"
  by (simp add: list_all2_conv_all_nth)

text \<open>
  C3. Whenever the pass returns, the output has as many lines as the input, and every
  output line is the input line, a rewrite of it for a planned tool, or a comment that
  starts with the whole input line. The pass returns whenever every tool id it may
  have to name has a name (otherwise a name lookup raises \<^verbatim>\<open>IndexError\<close>).
\<close>

theorem modify_gcode_lines:
  "(names_cover tool_names gcode_lines tool_sequence \<longrightarrow>
      (\<exists>out. modify_gcode tool_names gcode_lines layer_positions tool_sequence = Inr out)) \<and>
   (\<forall>out. modify_gcode tool_names gcode_lines layer_positions tool_sequence = Inr out \<longrightarrow>
      length out = length gcode_lines \<and>
      (\<forall>i < length gcode_lines.
         line_kept tool_names tool_sequence (gcode_lines ! i) (out ! i)))"
proof -
  have total: "\<exists>out. modify_gcode tool_names gcode_lines layer_positions tool_sequence = Inr out"
    if "names_cover tool_names gcode_lines tool_sequence"
  proof -
    from that have ts: "list_all (\<lambda>t. t < length tool_names) tool_sequence"
      and ls: "list_all (\<lambda>line. case m104_search line of None \<Rightarrow> True
                 | Some old \<Rightarrow> old < length tool_names) gcode_lines"
      by (simp_all add: names_cover_def)
    have "- 1 \<le> current_layer initial_state"
      and "\<And>c. current_tool initial_state = Some c \<Longrightarrow> c \<in> set tool_sequence"
      by (simp_all add: initial_state_def)
    with ts ls show ?thesis
      unfolding modify_gcode_def by (rule modify_loop_total)
  qed
  have kept: "length out = length gcode_lines \<and>
      (\<forall>i < length gcode_lines.
         line_kept tool_names tool_sequence (gcode_lines ! i) (out ! i))"
    if "modify_gcode tool_names gcode_lines layer_positions tool_sequence = Inr out" for out
  proof -
    from that have "list_all2 (line_kept tool_names tool_sequence) gcode_lines out"
      unfolding modify_gcode_def
      by (rule modify_loop_kept) (simp_all add: initial_state_def)
    then show ?thesis
      by (simp add: list_all2_conv_all_nth)
  qed
  from total kept show ?thesis by blast
qed

theorem modify_gcode_lines_witness:
  "names_cover [''Cyan'', ''Magenta'']
     ['';LAYER_CHANGE'', ''T0 S1 L0 D0'', ''P0 S1 L2 D0'', ''M104.1 T0 P120'', ''G1 X5''] [1] \<and>
   modify_gcode [''Cyan'', ''Magenta'']
     ['';LAYER_CHANGE'', ''T0 S1 L0 D0'', ''P0 S1 L2 D0'', ''M104.1 T0 P120'', ''G1 X5''] [0] [1] =
     Inr ['';LAYER_CHANGE'', ''T1 S1 L0 D0'',
          ''; P0 S1 L2 D0 - skipped parking as T1 (Magenta) is already active'',
          ''; M104.1 T0 P120 - skipped as T1 (Magenta) is already active'', ''G1 X5''] \<and>
   list_all2 (line_kept [''Cyan'', ''Magenta''] [1])
     ['';LAYER_CHANGE'', ''T0 S1 L0 D0'', ''P0 S1 L2 D0'', ''M104.1 T0 P120'', ''G1 X5'']
     ['';LAYER_CHANGE'', ''T1 S1 L0 D0'',
          ''; P0 S1 L2 D0 - skipped parking as T1 (Magenta) is already active'',
          ''; M104.1 T0 P120 - skipped as T1 (Magenta) is already active'', ''G1 X5'']"
proof -
  let ?names = "[''Cyan'', ''Magenta'']"
  let ?lines = "['';LAYER_CHANGE'', ''T0 S1 L0 D0'', ''P0 S1 L2 D0'', ''M104.1 T0 P120'', ''G1 X5'']"
  let ?out = "['';LAYER_CHANGE'', ''T1 S1 L0 D0'',
          ''; P0 S1 L2 D0 - skipped parking as T1 (Magenta) is already active'',
          ''; M104.1 T0 P120 - skipped as T1 (Magenta) is already active'', ''G1 X5'']"
  have cover: "names_cover ?names ?lines [1]" by code_simp
  have run: "modify_gcode ?names ?lines [0] [1] = Inr ?out" by code_simp
  from modify_gcode_lines [of ?names ?lines "[1]" "[0]"] run
  have "length ?out = length ?lines \<and>
      (\<forall>i < length ?lines. line_kept ?names [1] (?lines ! i) (?out ! i))"
    by blast
  then have "list_all2 (line_kept ?names [1]) ?lines ?out"
    by (rule nth_list_all2)
  with cover run show ?thesis by blast
qed

lemma rewrite_line_sets_active:
  assumes "rewrite_line names cur active line = Inr (out, act)"
    and "pickup_search line \<noteq> None \<or> names_other (m104_search line) cur \<or>
         names_other (tool_search line) cur \<or> names_other (simple_search line) cur"
  shows "act = Some cur"
  using assms(1)
proof (cases rule: rewrite_line_paths)
  case park
  then show ?thesis by simp
next
  case pickup
  then show ?thesis by simp
next
  case (heater m1 a1)
  then show ?thesis by simp
next
  case (through m1 a1 m2 a2)
  from through_active [OF through(2,3,4)] assms(2) show ?thesis by simp
qed

text \<open>
  C4, as the code has it. In every round of the loop, \<open>current_tool\<close> changes only
  at an index of the layer positions, and \<open>active_tool\<close> changes only to the current
  tool, and only on a line that matches the pickup form, or the heater preselect, the
  tool token with parameters or the leading tool token naming another tool.
  Conversely, after every such line the active tool is the current tool: in
  particular the two rewrites of pattern 6, the tool token with parameters and the
  leading tool token, set \<open>active_tool\<close> as lines 114 and 121 of the source say.
\<close>

theorem state_changes:
  "modify_step tool_names layer_positions tool_sequence i st line = Inr (out, st') \<Longrightarrow>
     (current_tool st' \<noteq> current_tool st \<longrightarrow> i \<in> set layer_positions) \<and>
     (active_tool st' \<noteq> active_tool st \<longrightarrow>
        (\<exists>cur. current_tool st' = Some cur \<and> active_tool st' = Some cur \<and>
           (pickup_search line \<noteq> None \<or> names_other (m104_search line) cur \<or>
            names_other (tool_search line) cur \<or> names_other (simple_search line) cur))) \<and>
     (\<forall>cur. current_tool st' = Some cur \<and>
        (pickup_search line \<noteq> None \<or> names_other (m104_search line) cur \<or>
         names_other (tool_search line) cur \<or> names_other (simple_search line) cur) \<longrightarrow>
        active_tool st' = Some cur)"
proof (intro conjI impI allI)
  assume step: "modify_step tool_names layer_positions tool_sequence i st line = Inr (out, st')"
  note s = modify_step_Inr [OF step]
  {
    assume changed: "current_tool st' \<noteq> current_tool st"
    have "current_tool st' = current_tool st" if "i \<notin> set layer_positions"
      using that by (simp add: s(2) advance_layer_frame(2))
    with changed show "i \<in> set layer_positions" by blast
  next
    assume changed: "active_tool st' \<noteq> active_tool st"
    with s(3) obtain cur where cur: "current_tool st' = Some cur" by (cases "current_tool st'") auto
    from rewrite_line_active [OF s(4) [OF cur] changed] cur
    show "\<exists>cur. current_tool st' = Some cur \<and> active_tool st' = Some cur \<and>
           (pickup_search line \<noteq> None \<or> names_other (m104_search line) cur \<or>
            names_other (tool_search line) cur \<or> names_other (simple_search line) cur)"
      by blast
  next
    fix cur
    assume "current_tool st' = Some cur \<and>
        (pickup_search line \<noteq> None \<or> names_other (m104_search line) cur \<or>
         names_other (tool_search line) cur \<or> names_other (simple_search line) cur)"
    then have cur: "current_tool st' = Some cur"
      and m: "pickup_search line \<noteq> None \<or> names_other (m104_search line) cur \<or>
         names_other (tool_search line) cur \<or> names_other (simple_search line) cur"
      by simp_all
    from s(4) [OF cur] m show "active_tool st' = Some cur"
      by (rule rewrite_line_sets_active)
  }
qed

theorem state_changes_witness:
  "modify_step [''Cyan'', ''Magenta''] [0] [1] 0 initial_state ''T0 S1 L0 D0'' =
     Inr (''T1 S1 L0 D0'', \<lparr>current_layer = 0, current_tool = Some 1, active_tool = Some 1\<rparr>) \<and>
   (0::nat) \<in> set [0] \<and> pickup_search ''T0 S1 L0 D0'' \<noteq> None \<and>
   modify_step [''Cyan'', ''Magenta''] [0] [1] 0 initial_state ''T0 S5 L0 D0'' =
     Inr (''T1 S5 L0 D0'', \<lparr>current_layer = 0, current_tool = Some 1, active_tool = Some 1\<rparr>) \<and>
   names_other (tool_search ''T0 S5 L0 D0'') 1 \<and>
   modify_step [''Cyan'', ''Magenta''] [0] [1] 0 initial_state ''T0 ; load'' =
     Inr (''T1 ; load'', \<lparr>current_layer = 0, current_tool = Some 1, active_tool = Some 1\<rparr>) \<and>
   names_other (simple_search ''T0 ; load'') 1 \<and>
   pickup_search ''T0 ; load'' = None \<and> m104_search ''T0 ; load'' = None \<and>
   tool_search ''T0 ; load'' = None"
proof -
  let ?n = "[''Cyan'', ''Magenta'']"
  let ?s = "\<lparr>current_layer = 0, current_tool = Some (1::nat), active_tool = Some (1::nat)\<rparr>"
  have run: "modify_step ?n [0] [1] 0 initial_state ''T0 S1 L0 D0'' = Inr (''T1 S1 L0 D0'', ?s)"
    by code_simp
  have "names_other (m104_search ''T0 S1 L0 D0'') 1 = False"
    and "names_other (simple_search ''T0 S1 L0 D0'') 1 = False"
    by code_simp+
  with state_changes [OF run] have a: "(0::nat) \<in> set [0]"
    and "pickup_search ''T0 S1 L0 D0'' \<noteq> None \<or> names_other (tool_search ''T0 S1 L0 D0'') 1"
    by (simp_all add: initial_state_def)
  have b: "pickup_search ''T0 S1 L0 D0'' \<noteq> None" by code_simp
  have run2: "modify_step ?n [0] [1] 0 initial_state ''T0 S5 L0 D0'' = Inr (''T1 S5 L0 D0'', ?s)"
    by code_simp
  have t2: "names_other (tool_search ''T0 S5 L0 D0'') 1" by code_simp
  from state_changes [OF run2] t2 have x2: "active_tool ?s = Some 1" by simp
  have run3: "modify_step ?n [0] [1] 0 initial_state ''T0 ; load'' = Inr (''T1 ; load'', ?s)"
    by code_simp
  have t3: "names_other (simple_search ''T0 ; load'') 1" "pickup_search ''T0 ; load'' = None"
    "m104_search ''T0 ; load'' = None" "tool_search ''T0 ; load'' = None"
    by code_simp+
  from state_changes [OF run3] t3(1) have x3: "active_tool ?s = Some 1" by simp
  from run a b run2 x2 t2 run3 x3 t3 show ?thesis
    by blast
qed

text \<open>
  C4 as stated fails: a tool token with parameters that is neither a pickup nor a
  heater command sets the active tool, and the park command on the next line is
  skipped for it.
\<close>

theorem state_changes_counterexample:
  "pickup_search ''T0 S5 L0 D0'' = None \<and> m104_search ''T0 S5 L0 D0'' = None \<and>
   modify_step [''Cyan'', ''Magenta''] [0] [1] 0 initial_state ''T0 S5 L0 D0'' =
     Inr (''T1 S5 L0 D0'', \<lparr>current_layer = 0, current_tool = Some 1, active_tool = Some 1\<rparr>) \<and>
   active_tool initial_state = None \<and>
   modify_gcode [''Cyan'', ''Magenta''] [''T0 S5 L0 D0'', ''P0 S1 L2 D0''] [0] [1] =
     Inr [''T1 S5 L0 D0'', ''; P0 S1 L2 D0 - skipped parking as T1 (Magenta) is already active'']"
  by code_simp

text \<open>
  C5, as the code has it. On a line that matches the heater preselect naming a tool
  other than the current one, while the active tool is not the current one, that does
  not match the pickup form and names no other tool in a tool token with parameters
  or a leading tool token, the line becomes the replacement command for the current
  tool. Its \<open>P\<close> value is the digits of the first \<^verbatim>\<open>P<digits>\<close> found anywhere
  in the line, the trailing comment included, or \<open>120\<close> when the line has none; its
  \<open>Q\<close> value is the digits of the first \<^verbatim>\<open>Q<digits>\<close> anywhere in the line, or
  the \<open>P\<close> value plus the current tool plus one; its \<open>S\<close> value is the digits of the
  first \<^verbatim>\<open>S<digits>\<close> anywhere in the line, or \<open>210\<close>. The command is followed
  by the match of \<^verbatim>\<open>;.*$\<close> in the line (the text from the first semicolon on,
  for a line without a line break), or, when there is no such match and both tools
  have names, by the synthesized comment; and the current tool becomes the active
  tool.
\<close>

theorem heater_preselect_rewrite:
  assumes "m104_search line = Some old_tool" and "old_tool \<noteq> cur" and "active \<noteq> Some cur"
    and "pickup_search line = None"
    and "\<not> names_other (tool_search line) cur" and "\<not> names_other (simple_search line) cur"
    and "comment_search line = None \<longrightarrow> old_tool < length tool_names \<and> cur < length tool_names"
  shows "rewrite_line tool_names cur active line =
     Inr (''M104.1 T'' @ str_nat cur @
          '' P'' @ (case param_search CHR ''P'' line of Some p \<Rightarrow> p | None \<Rightarrow> ''120'') @
          '' Q'' @ (case param_search CHR ''Q'' line of Some q \<Rightarrow> q
                   | None \<Rightarrow> str_nat (int_of_digits
                       (case param_search CHR ''P'' line of Some p \<Rightarrow> p | None \<Rightarrow> ''120'') + cur + 1)) @
          '' S'' @ (case param_search CHR ''S'' line of Some s \<Rightarrow> s | None \<Rightarrow> ''210'') @
          (case comment_search line of
             Some comment \<Rightarrow> '' '' @ comment
           | None \<Rightarrow> '' ; switched from T'' @ str_nat old_tool @ '' ('' @ tool_names ! old_tool @
                      '') to T'' @ str_nat cur @ '' ('' @ tool_names ! cur @ '')''),
          Some cur)"
proof -
  let ?cmd = "''M104.1 T'' @ str_nat cur @
          '' P'' @ (case param_search CHR ''P'' line of Some p \<Rightarrow> p | None \<Rightarrow> ''120'') @
          '' Q'' @ (case param_search CHR ''Q'' line of Some q \<Rightarrow> q
                   | None \<Rightarrow> str_nat (int_of_digits
                       (case param_search CHR ''P'' line of Some p \<Rightarrow> p | None \<Rightarrow> ''120'') + cur + 1)) @
          '' S'' @ (case param_search CHR ''S'' line of Some s \<Rightarrow> s | None \<Rightarrow> ''210'') @
          (case comment_search line of
             Some comment \<Rightarrow> '' '' @ comment
           | None \<Rightarrow> '' ; switched from T'' @ str_nat old_tool @ '' ('' @ tool_names ! old_tool @
                      '') to T'' @ str_nat cur @ '' ('' @ tool_names ! cur @ '')'')"
  have park: "park_stage tool_names cur active line = Inr (Next line active)"
    using assms(3) by (simp add: park_stage_def)
  have pickup: "pickup_stage tool_names cur active line = Inr (Next line active)"
    using assms(4) by (simp add: pickup_stage_def)
  have cmd: "m104_command tool_names old_tool cur line = Inr ?cmd"
    using assms(7)
    by (cases "comment_search line") (simp_all add: m104_command_def Let_def tool_name_def)
  have heater: "m104_stage tool_names cur active line line = Inr (Next ?cmd (Some cur))"
    using assms(1,2,3) by (simp add: m104_stage_def cmd)
  have rest: "tool_stage cur (Some cur) line ?cmd = (?cmd, Some cur)"
    "simple_stage cur (Some cur) line ?cmd = (?cmd, Some cur)"
    using assms(5,6) by (simp_all add: tool_stage_eq simple_stage_eq)
  show ?thesis
    by (simp only: rewrite_line_def park pickup heater rest sum.case flow.case prod.case)
qed

theorem heater_preselect_rewrite_witness:
  "rewrite_line [''Cyan'', ''Magenta''] 1 None ''M104.1 T0 S215'' =
     Inr (''M104.1 T1 P120 Q122 S215 ; switched from T0 (Cyan) to T1 (Magenta)'', Some 1) \<and>
   rewrite_line [''Cyan'', ''Magenta''] 1 (Some 0) ''M104.1 T0 P100 Q105 S215 ; preheat'' =
     Inr (''M104.1 T1 P100 Q105 S215 ; preheat'', Some 1)"
proof -
  let ?n = "[''Cyan'', ''Magenta'']"
  let ?a = "''M104.1 T0 S215''"
  let ?b = "''M104.1 T0 P100 Q105 S215 ; preheat''"
  have a: "m104_search ?a = Some 0" "(0::nat) \<noteq> 1" "(None :: nat option) \<noteq> Some 1"
    "pickup_search ?a = None" "\<not> names_other (tool_search ?a) 1"
    "\<not> names_other (simple_search ?a) 1"
    "comment_search ?a = None \<longrightarrow> 0 < length ?n \<and> 1 < length ?n"
    by code_simp+
  have b: "m104_search ?b = Some 0" "(0::nat) \<noteq> 1" "Some (0::nat) \<noteq> Some 1"
    "pickup_search ?b = None" "\<not> names_other (tool_search ?b) 1"
    "\<not> names_other (simple_search ?b) 1"
    "comment_search ?b = None \<longrightarrow> 0 < length ?n \<and> 1 < length ?n"
    by code_simp+
  have pa: "param_search CHR ''P'' ?a = None" "param_search CHR ''Q'' ?a = None"
    "param_search CHR ''S'' ?a = Some ''215''" "comment_search ?a = None"
    by code_simp+
  have pb: "param_search CHR ''P'' ?b = Some ''100''" "param_search CHR ''Q'' ?b = Some ''105''"
    "param_search CHR ''S'' ?b = Some ''215''" "comment_search ?b = Some ''; preheat''"
    by code_simp+
  have n: "str_nat 1 = ''1''" "str_nat 0 = ''0''" "str_nat (int_of_digits ''120'' + 1 + 1) = ''122''"
    "?n ! 0 = ''Cyan''" "?n ! 1 = ''Magenta''"
    by code_simp+
  from heater_preselect_rewrite [OF a]
  have ra: "rewrite_line ?n 1 None ?a =
     Inr (''M104.1 T1 P120 Q122 S215 ; switched from T0 (Cyan) to T1 (Magenta)'', Some 1)"
    by (simp only: pa n option.case append.simps)
  from heater_preselect_rewrite [OF b]
  have rb: "rewrite_line ?n 1 (Some 0) ?b = Inr (''M104.1 T1 P100 Q105 S215 ; preheat'', Some 1)"
    by (simp only: pb n option.case append.simps)
  from ra rb show ?thesis by (rule conjI)
qed

text \<open>
  C5 as stated fails on a heater preselect that also matches the tool token with
  parameters: the later stage replaces the synthesized command (no default \<open>P\<close> or
  \<open>Q\<close> is in the output). It fails on a heater preselect without parameters whose
  comment holds \<^verbatim>\<open>P5 Q6\<close>: the command takes these in place of the defaults.
  It also fails where the synthesized comment needs the name of a tool that has none:
  the pass ends with \<^verbatim>\<open>IndexError\<close>.
\<close>

theorem heater_preselect_rewrite_counterexample:
  "m104_search ''M104.1 T0 S5 L0 D0'' = Some 0 \<and>
   param_search CHR ''P'' ''M104.1 T0 S5 L0 D0'' = None \<and>
   rewrite_line [''Cyan'', ''Magenta''] 1 None ''M104.1 T0 S5 L0 D0'' =
     Inr (''M104.1 T1 S5 L0 D0'', Some 1) \<and>
   modify_gcode [''Cyan'', ''Magenta''] [''M104.1 T0 S5 L0 D0''] [0] [1] =
     Inr [''M104.1 T1 S5 L0 D0''] \<and>
   m104_search ''M104.1 T0 ; P5 Q6'' = Some 0 \<and>
   modify_gcode [''Cyan'', ''Magenta''] [''M104.1 T0 ; P5 Q6''] [0] [1] =
     Inr [''M104.1 T1 P5 Q6 S210 ; P5 Q6''] \<and>
   m104_search ''M104.1 T7'' = Some 7 \<and>
   modify_gcode [''Cyan'', ''Magenta''] [''M104.1 T7''] [0] [1] = Inl IndexError"
  by code_simp

text \<open>
  C9, as the code has it. A line leaves the body of the loop early only by the park
  skip, the pickup skip or the heater skip. Otherwise every pattern is tried in the
  order 3, 4, 5, 6 against the text of the input line, and a rewrite replaces the
  output of the stages before it: the output is the rewrite of the last pattern that
  names another tool, not an accumulation of the edits.
\<close>

theorem last_rewrite_wins:
  assumes "rewrite_line tool_names cur active line = Inr (out, act)"
  shows
    "(park_search line \<and> active = Some cur \<longrightarrow>
        skip_note tool_names '' - skipped parking as '' line cur = Inr out \<and> act = active) \<and>
     (\<not> park_search line \<and> pickup_search line = Some cur \<and> active = Some cur \<longrightarrow>
        skip_note tool_names '' - skipped pickup as '' line cur = Inr out \<and> act = active) \<and>
     (\<not> (park_search line \<and> active = Some cur) \<and>
      \<not> (pickup_search line = Some cur \<and> active = Some cur) \<and>
      names_other (m104_search line) cur \<and> (active = Some cur \<or> pickup_search line \<noteq> None) \<longrightarrow>
        skip_note tool_names '' - skipped as '' line cur = Inr out \<and> act = Some cur) \<and>
     (\<not> (park_search line \<and> active = Some cur) \<and>
      \<not> (pickup_search line = Some cur \<and> active = Some cur) \<and>
      \<not> (names_other (m104_search line) cur \<and> (active = Some cur \<or> pickup_search line \<noteq> None)) \<longrightarrow>
        (if names_other (simple_search line) cur then out = sub_start_T (tool_token cur) line
         else if names_other (tool_search line) cur then out = sub_word_T (tool_token cur) None line
         else if names_other (m104_search line) cur
           then (\<exists>old. m104_search line = Some old \<and>
                   m104_command tool_names old cur line = Inr out)
         else if names_other (pickup_search line) cur then out = sub_all_T (tool_token cur) line
         else out = line))"
  using assms
proof (cases rule: rewrite_line_paths)
  case park
  then show ?thesis by simp
next
  case pickup
  then show ?thesis by (simp add: names_other_def)
next
  case (heater m1 a1)
  from pickup_stage_Next [OF heater(2)] heater(4)
  have "active = Some cur \<or> pickup_search line \<noteq> None"
    and "\<not> (pickup_search line = Some cur \<and> active = Some cur)"
    by (auto simp: names_other_def)
  with heater show ?thesis by auto
next
  case (through m1 a1 m2 a2)
  note p = pickup_stage_Next [OF through(2)]
  note h = m104_stage_Next [OF through(3)]
  note t = through_text(1) [OF through(2,3,4)]
  from p have noskip: "\<not> (pickup_search line = Some cur \<and> active = Some cur)"
    by (auto simp: names_other_def)
  from p have a1: "a1 = Some cur \<longleftrightarrow> active = Some cur \<or> pickup_search line \<noteq> None"
    by (auto simp: names_other_def)
  from h a1 have h': "\<not> (names_other (m104_search line) cur \<and>
      (active = Some cur \<or> pickup_search line \<noteq> None))"
    by (auto simp: names_other_def)
  have m2: "if names_other (m104_search line) cur
      then \<exists>old. m104_search line = Some old \<and> m104_command tool_names old cur line = Inr m2
      else if names_other (pickup_search line) cur then m2 = sub_all_T (tool_token cur) line
      else m2 = line"
    using p h by (auto simp: names_other_def)
  from through(1) noskip h' t m2 show ?thesis
    by (auto split: if_splits)
qed

theorem last_rewrite_wins_witness:
  "rewrite_line [''Cyan'', ''Magenta''] 1 None ''M104.1 T0 S3 L0 D0 P100'' =
     Inr (''M104.1 T1 S3 L0 D0 P100'', Some 1) \<and>
   names_other (m104_search ''M104.1 T0 S3 L0 D0 P100'') 1 \<and>
   names_other (tool_search ''M104.1 T0 S3 L0 D0 P100'') 1 \<and>
   sub_word_T (tool_token 1) None ''M104.1 T0 S3 L0 D0 P100'' = ''M104.1 T1 S3 L0 D0 P100''"
proof -
  let ?n = "[''Cyan'', ''Magenta'']"
  let ?l = "''M104.1 T0 S3 L0 D0 P100''"
  have run: "rewrite_line ?n 1 None ?l = Inr (''M104.1 T1 S3 L0 D0 P100'', Some 1)"
    by code_simp
  have f: "\<not> names_other (simple_search ?l) 1" "names_other (tool_search ?l) 1"
    "names_other (m104_search ?l) 1" "pickup_search ?l = None" "\<not> park_search ?l"
    by code_simp+
  from last_rewrite_wins [OF run] f
  have "''M104.1 T1 S3 L0 D0 P100'' = sub_word_T (tool_token 1) None ?l"
    by simp
  with run f show ?thesis by simp
qed

text \<open>
  C9 as stated fails: were the edits accumulated, the tool token stage would read the
  replacement heater command, which it does not match, and the command would stay;
  the source reads the input line again and replaces the command.
\<close>

theorem last_rewrite_wins_counterexample:
  "rewrite_line [''Cyan'', ''Magenta''] 1 None ''M104.1 T0 S3 L0 D0 P100'' =
     Inr (''M104.1 T1 S3 L0 D0 P100'', Some 1) \<and>
   spec_rewrite_line_accumulating [''Cyan'', ''Magenta''] 1 None ''M104.1 T0 S3 L0 D0 P100'' =
     Inr (''M104.1 T1 P100 Q102 S3 ; switched from T0 (Cyan) to T1 (Magenta)'', Some 1)"
  by code_simp

subsection \<open>Command Rewriter: a second pass\<close>

lemma rewrite_line_settled:
  assumes "rewrite_line names cur active line = Inr (out, act)" and "settled cur line"
  shows "out = line \<or>
     skip_note names '' - skipped parking as '' line cur = Inr out \<or>
     skip_note names '' - skipped pickup as '' line cur = Inr out"
  using assms(1)
proof (cases rule: rewrite_line_paths)
  case park
  then show ?thesis by simp
next
  case pickup
  then show ?thesis by simp
next
  case (heater m1 a1)
  with assms(2) show ?thesis by (simp add: settled_def)
next
  case (through m1 a1 m2 a2)
  note t = through_text [OF through(2,3,4)]
  from t assms(2) show ?thesis
    by (auto simp: settled_def names_other_def)
qed

text \<open>The layer part of the state does not depend on the active tool.\<close>

lemma advance_layer_cong:
  assumes "current_layer st = current_layer st0" and "current_tool st = current_tool st0"
  shows "current_layer (advance_layer lp ts i st) = current_layer (advance_layer lp ts i st0)"
    and "current_tool (advance_layer lp ts i st) = current_tool (advance_layer lp ts i st0)"
  using assms by (simp_all add: advance_layer_def Let_def)

lemma modify_loop_planned:
  "modify_loop names lp ts i st lines = Inr outs \<Longrightarrow>
   current_layer st = current_layer (foldl (\<lambda>st j. advance_layer lp ts j st) initial_state [0..<i]) \<Longrightarrow>
   current_tool st = current_tool (foldl (\<lambda>st j. advance_layer lp ts j st) initial_state [0..<i]) \<Longrightarrow>
   length outs = length lines \<and>
   (\<forall>j < length lines.
      case planned_tool lp ts (i + j) of
        None \<Rightarrow> outs ! j = lines ! j
      | Some cur \<Rightarrow> (\<exists>active act. rewrite_line names cur active (lines ! j) = Inr (outs ! j, act)))"
proof (induction lines arbitrary: i st outs)
  case Nil
  then show ?case by simp
next
  case (Cons line rest)
  let ?f = "\<lambda>st j. advance_layer lp ts j st"
  from Cons.prems(1) obtain out st' outs' where
    step: "modify_step names lp ts i st line = Inr (out, st')" and
    loop: "modify_loop names lp ts (Suc i) st' rest = Inr outs'" and
    outs: "outs = out # outs'"
    by (auto split: sum.splits)
  note s = modify_step_Inr [OF step]
  have fold: "foldl ?f initial_state [0..<Suc i] = advance_layer lp ts i (foldl ?f initial_state [0..<i])"
    by simp
  have layer: "current_layer st' = current_layer (foldl ?f initial_state [0..<Suc i])"
    unfolding fold s(1) using Cons.prems(2,3) by (rule advance_layer_cong)
  have tool: "current_tool st' = current_tool (foldl ?f initial_state [0..<Suc i])"
    unfolding fold s(2) using Cons.prems(2,3) by (rule advance_layer_cong)
  have here: "case planned_tool lp ts i of
        None \<Rightarrow> out = line
      | Some cur \<Rightarrow> (\<exists>active act. rewrite_line names cur active line = Inr (out, act))"
  proof (cases "current_tool st'")
    case None
    with s(3) tool show ?thesis by (simp add: planned_tool_def)
  next
    case (Some cur)
    from s(4) [OF Some] Some tool show ?thesis
      by (auto simp: planned_tool_def simp del: upt_Suc)
  qed
  from Cons.IH [OF loop layer tool]
  have IH: "length outs' = length rest"
    "\<And>j. j < length rest \<Longrightarrow>
      (case planned_tool lp ts (Suc i + j) of
        None \<Rightarrow> outs' ! j = rest ! j
      | Some cur \<Rightarrow> (\<exists>active act. rewrite_line names cur active (rest ! j) = Inr (outs' ! j, act)))"
    by simp_all
  show ?case
  proof (intro conjI allI impI)
    show "length outs = length (line # rest)" by (simp add: outs IH(1))
    fix j assume j: "j < length (line # rest)"
    show "case planned_tool lp ts (i + j) of
        None \<Rightarrow> outs ! j = (line # rest) ! j
      | Some cur \<Rightarrow> (\<exists>active act. rewrite_line names cur active ((line # rest) ! j) = Inr (outs ! j, act))"
    proof (cases j)
      case 0
      with here show ?thesis by (simp add: outs split: option.splits)
    next
      case (Suc k)
      with j have "k < length rest" by simp
      from IH(2) [OF this] Suc show ?thesis by (simp add: outs split: option.splits)
    qed
  qed
qed

lemma modify_gcode_planned:
  assumes "modify_gcode names lines lp ts = Inr outs"
  shows "length outs = length lines"
    and "\<And>j. j < length lines \<Longrightarrow> planned_tool lp ts j = None \<Longrightarrow> outs ! j = lines ! j"
    and "\<And>j cur. j < length lines \<Longrightarrow> planned_tool lp ts j = Some cur \<Longrightarrow>
           \<exists>active act. rewrite_line names cur active (lines ! j) = Inr (outs ! j, act)"
proof -
  from assms have "modify_loop names lp ts 0 initial_state lines = Inr outs"
    by (simp add: modify_gcode_def)
  from modify_loop_planned [OF this]
  have *: "length outs = length lines \<and>
   (\<forall>j < length lines.
      case planned_tool lp ts (0 + j) of
        None \<Rightarrow> outs ! j = lines ! j
      | Some cur \<Rightarrow> (\<exists>active act. rewrite_line names cur active (lines ! j) = Inr (outs ! j, act)))"
    by simp
  from * show "length outs = length lines" by simp
  from * show "\<And>j. j < length lines \<Longrightarrow> planned_tool lp ts j = None \<Longrightarrow> outs ! j = lines ! j"
    by (auto split: option.splits)
  from * show "\<And>j cur. j < length lines \<Longrightarrow> planned_tool lp ts j = Some cur \<Longrightarrow>
           \<exists>active act. rewrite_line names cur active (lines ! j) = Inr (outs ! j, act)"
    by (auto split: option.splits)
qed

text \<open>Digits and numbers.\<close>

lemma is_digit_char_of: "k < 10 \<Longrightarrow> is_digit (char_of (48 + k :: nat))"
  by (simp add: is_digit_def)

lemma str_nat_digits: "list_all is_digit (str_nat n)"
proof (induction n rule: str_nat.induct)
  case (1 n)
  show ?case
  proof (cases "n < 10")
    case True
    then show ?thesis by (subst str_nat.simps) (simp add: is_digit_char_of)
  next
    case False
    have "n mod 10 < 10" by simp
    then have "is_digit (char_of (48 + n mod 10))" by (rule is_digit_char_of)
    with False 1 show ?thesis by (subst str_nat.simps) simp
  qed
qed

lemma str_nat_nonempty: "str_nat n \<noteq> []"
  by (subst str_nat.simps) simp

lemma int_of_digits_snoc:
  "int_of_digits (xs @ [c]) = 10 * int_of_digits xs + (of_char c - 48)"
  by (simp add: int_of_digits_def)

lemma int_of_digits_str_nat: "int_of_digits (str_nat n) = n"
proof (induction n rule: str_nat.induct)
  case (1 n)
  show ?case
  proof (cases "n < 10")
    case True
    then have "str_nat n = [char_of (48 + n)]" by (subst str_nat.simps) simp
    with True show ?thesis by (simp add: int_of_digits_def)
  next
    case False
    then have "str_nat n = str_nat (n div 10) @ [char_of (48 + n mod 10)]"
      by (subst str_nat.simps) simp
    moreover have "int_of_digits (str_nat (n div 10)) = n div 10" using False by (rule 1)
    moreover have "(of_char (char_of (48 + n mod 10 :: nat)) :: nat) - 48 = n mod 10"
      by simp
    ultimately show ?thesis by (simp add: int_of_digits_snoc)
  qed
qed

text \<open>After the pickup substitution every tool token carries the digits of the tool.\<close>

lemma T_not_digit: "\<not> is_digit CHR ''T''"
  by (simp add: is_digit_def)

lemma sub_all_T_start:
  assumes "s = [] \<or> \<not> is_digit (hd s)"
  shows "takeWhile is_digit (sub_all_T (tool_token cur) s) = []"
proof (cases s)
  case Nil
  then show ?thesis by simp
next
  case (Cons c cs)
  with assms have "\<not> is_digit c" by simp
  then show ?thesis by (simp add: Cons tool_token_def T_not_digit)
qed

lemma takeWhile_digits_append:
  assumes "list_all is_digit d" and "takeWhile is_digit r = []"
  shows "takeWhile is_digit (d @ r) = d"
  using assms by (induction d) simp_all

lemma tool_tokens_are_digits_append:
  assumes "list_all is_digit d'" and "tool_tokens_are d r"
  shows "tool_tokens_are d (d' @ r)"
  using assms by (induction d') (auto simp: T_not_digit)

lemma dropWhile_start: "dropWhile P xs = [] \<or> \<not> P (hd (dropWhile P xs))"
  by (metis hd_dropWhile)

lemma sub_all_T_tokens: "tool_tokens_are (str_nat cur) (sub_all_T (tool_token cur) line)"
proof (induction "tool_token cur" line rule: sub_all_T.induct)
  case 1
  show ?case by simp
next
  case (2 c cs)
  show ?case
  proof (cases "c = CHR ''T'' \<and> takeWhile is_digit cs \<noteq> []")
    case True
    let ?r = "sub_all_T (tool_token cur) (dropWhile is_digit cs)"
    have r: "tool_tokens_are (str_nat cur) ?r" using True by (intro 2) simp_all
    have start: "takeWhile is_digit ?r = []"
      by (rule sub_all_T_start) (rule dropWhile_start)
    have run: "takeWhile is_digit (str_nat cur @ ?r) = str_nat cur"
      using str_nat_digits start by (rule takeWhile_digits_append)
    have rest: "tool_tokens_are (str_nat cur) (str_nat cur @ ?r)"
      using str_nat_digits r by (rule tool_tokens_are_digits_append)
    have "sub_all_T (tool_token cur) (c # cs) = CHR ''T'' # str_nat cur @ ?r"
      using True by (simp add: tool_token_def)
    with run rest show ?thesis by simp
  next
    case False
    let ?r = "sub_all_T (tool_token cur) cs"
    have r: "tool_tokens_are (str_nat cur) ?r" using False by (intro 2) simp_all
    have eq: "sub_all_T (tool_token cur) (c # cs) = c # ?r" using False by auto
    have "takeWhile is_digit ?r = []" if "c = CHR ''T''"
    proof (rule sub_all_T_start)
      from that False have "takeWhile is_digit cs = []" by simp
      then show "cs = [] \<or> \<not> is_digit (hd cs)" by (cases cs) (auto split: if_splits)
    qed
    then have "c = CHR ''T'' \<and> takeWhile is_digit ?r \<noteq> [] \<longrightarrow>
        takeWhile is_digit ?r = str_nat cur"
      by blast
    then show ?thesis unfolding eq tool_tokens_are.simps using r by (rule conjI)
  qed
qed

text \<open>What a match of one of the four patterns with a tool id reads.\<close>

lemma lit_Some: "lit p s = Some r \<Longrightarrow> s = p @ r"
  by (auto simp: lit_def split: if_splits) (metis append_take_drop_id)

lemma spaces1_Some: "spaces1 s = Some r \<Longrightarrow> \<exists>pre. s = pre @ r"
proof -
  assume "spaces1 s = Some r"
  then have "r = dropWhile is_space s" by (simp add: spaces1_def split: if_splits)
  then have "s = takeWhile is_space s @ r" by simp
  then show ?thesis ..
qed

lemma digits1_Some:
  "digits1 s = Some (d, r) \<Longrightarrow> d = takeWhile is_digit s \<and> d \<noteq> []"
  by (simp add: digits1_def split: if_splits)

lemma token_digits:
  assumes "lit ''T'' s = Some s1" and "digits1 s1 = Some (d, r)"
  shows "\<exists>cs. s = CHR ''T'' # cs \<and> takeWhile is_digit cs \<noteq> [] \<and> d = takeWhile is_digit cs"
proof -
  from lit_Some [OF assms(1)] have "s = CHR ''T'' # s1" by simp
  moreover from digits1_Some [OF assms(2)]
  have "takeWhile is_digit s1 \<noteq> []" "d = takeWhile is_digit s1" by blast+
  ultimately show ?thesis by blast
qed

lemma pickup_at_token:
  assumes "pickup_at s = Some old"
  shows "\<exists>pre cs. s = pre @ CHR ''T'' # cs \<and> takeWhile is_digit cs \<noteq> [] \<and>
     old = int_of_digits (takeWhile is_digit cs)"
proof -
  from assms obtain s1 d r where "lit ''T'' s = Some s1" "digits1 s1 = Some (d, r)"
    "old = int_of_digits d"
    by (auto simp: pickup_at_def bind_eq_Some_conv)
  with token_digits [of s s1 d r] show ?thesis by (metis append_Nil)
qed

lemma tool_at_token:
  assumes "tool_at s = Some old"
  shows "\<exists>cs. s = CHR ''T'' # cs \<and> takeWhile is_digit cs \<noteq> [] \<and>
     old = int_of_digits (takeWhile is_digit cs)"
proof -
  from assms obtain s1 d r where "lit ''T'' s = Some s1" "digits1 s1 = Some (d, r)"
    "old = int_of_digits d"
    by (auto simp: tool_at_def bind_eq_Some_conv)
  with token_digits [of s s1 d r] show ?thesis by auto
qed

lemma m104_at_token:
  assumes "m104_at s = Some old"
  shows "\<exists>pre cs. s = pre @ CHR ''T'' # cs \<and> takeWhile is_digit cs \<noteq> [] \<and>
     old = int_of_digits (takeWhile is_digit cs)"
proof -
  from assms obtain s1 s2 s3 d r where l: "lit ''M104.1'' s = Some s1"
    and sp: "spaces1 s1 = Some s2" and t: "lit ''T'' s2 = Some s3"
    and dg: "digits1 s3 = Some (d, r)" and old: "old = int_of_digits d"
    by (auto simp: m104_at_def bind_eq_Some_conv)
  from token_digits [OF t dg] obtain cs where cs: "s2 = CHR ''T'' # cs"
    "takeWhile is_digit cs \<noteq> []" "d = takeWhile is_digit cs"
    by blast
  from spaces1_Some [OF sp] obtain pre where "s1 = pre @ s2" ..
  with lit_Some [OF l] have "s = (''M104.1'' @ pre) @ s2" by simp
  with cs old show ?thesis by blast
qed

lemma tool_tokens_are_suffix: "tool_tokens_are d (xs @ ys) \<Longrightarrow> tool_tokens_are d ys"
  by (induction xs) simp_all

lemma tool_tokens_are_read:
  assumes "tool_tokens_are d s" and "s = pre @ CHR ''T'' # cs"
    and "takeWhile is_digit cs \<noteq> []"
  shows "takeWhile is_digit cs = d"
proof -
  from assms(1,2) have "tool_tokens_are d (CHR ''T'' # cs)"
    using tool_tokens_are_suffix by blast
  with assms(3) show ?thesis by simp
qed

lemma re_search_token:
  assumes m: "\<And>s old. m s = Some old \<Longrightarrow>
      \<exists>pre cs. s = pre @ CHR ''T'' # cs \<and> takeWhile is_digit cs \<noteq> [] \<and>
        old = int_of_digits (takeWhile is_digit cs)"
  shows "tool_tokens_are d s \<Longrightarrow> re_search m s = Some old \<Longrightarrow> old = int_of_digits d"
proof (induction s)
  case Nil
  then have "m [] = Some old" by simp
  from m [OF this] show ?case by simp
next
  case (Cons c cs)
  show ?case
  proof (cases "m (c # cs)")
    case None
    with Cons.prems(2) have "re_search m cs = Some old" by simp
    moreover from Cons.prems(1) have "tool_tokens_are d cs" by simp
    ultimately show ?thesis by (rule Cons.IH [rotated])
  next
    case (Some r)
    with Cons.prems(2) have "m (c # cs) = Some old" by simp
    from m [OF this] obtain pre cs' where "c # cs = pre @ CHR ''T'' # cs'"
      "takeWhile is_digit cs' \<noteq> []" "old = int_of_digits (takeWhile is_digit cs')"
      by blast
    with tool_tokens_are_read [OF Cons.prems(1)] show ?thesis by metis
  qed
qed

lemma tool_search_from_token:
  "tool_tokens_are d s \<Longrightarrow> tool_search_from prev s = Some old \<Longrightarrow> old = int_of_digits d"
proof (induction s arbitrary: prev)
  case Nil
  then show ?case by simp
next
  case (Cons c cs)
  show ?case
  proof (cases "if word_boundary prev (c # cs) then tool_at (c # cs) else None")
    case None
    with Cons.prems(2) have "tool_search_from (Some c) cs = Some old" by simp
    moreover from Cons.prems(1) have "tool_tokens_are d cs" by simp
    ultimately show ?thesis by (rule Cons.IH [rotated])
  next
    case (Some r)
    with Cons.prems(2) have "tool_at (c # cs) = Some old" by (simp split: if_splits)
    from tool_at_token [OF this] Cons.prems(1) show ?thesis by auto
  qed
qed

lemma simple_search_token:
  assumes "tool_tokens_are d s" and "simple_search s = Some old"
  shows "old = int_of_digits d"
proof -
  from assms(2) obtain s1 d' r where "lit ''T'' s = Some s1" "digits1 s1 = Some (d', r)"
    "old = int_of_digits d'"
    by (auto simp: simple_search_def bind_eq_Some_conv)
  with token_digits [of s s1 d' r] assms(1) show ?thesis by auto
qed

lemma tokens_settled:
  assumes "tool_tokens_are (str_nat cur) s"
  shows "settled cur s"
proof -
  have "old = cur" if "pickup_search s = Some old" for old
    using re_search_token [of pickup_at, OF pickup_at_token assms] that
    by (simp add: pickup_search_def int_of_digits_str_nat)
  moreover have "old = cur" if "m104_search s = Some old" for old
    using re_search_token [of m104_at, OF m104_at_token assms] that
    by (simp add: m104_search_def int_of_digits_str_nat)
  moreover have "old = cur" if "tool_search s = Some old" for old
    using tool_search_from_token [OF assms] that
    by (simp add: tool_search_def int_of_digits_str_nat)
  moreover have "old = cur" if "simple_search s = Some old" for old
    using simple_search_token [OF assms that] by (simp add: int_of_digits_str_nat)
  ultimately show ?thesis
    by (auto simp: settled_def names_other_def split: option.splits)
qed

lemma sub_all_T_settled: "settled cur (sub_all_T (tool_token cur) line)"
  using sub_all_T_tokens by (rule tokens_settled)

text \<open>
  C8, as the code has it. A second pass over the output of a first pass, with the tool
  names, layer positions and tool sequence of the first, returns as many lines as the
  document has. A line before the first layer boundary comes out as it went in. A
  line that the first pass produced by redirecting all its tool tokens to the planned
  tool (the pickup rewrite), or in which no recognized command names a tool other
  than the planned one, comes out identical to the single-pass output or as that
  output line commented out with the annotation of a skipped parking or pickup for
  the planned tool: it is never retargeted. Nothing is promised of the other lines.
\<close>

theorem second_pass:
  assumes "modify_gcode tool_names gcode_lines layer_positions tool_sequence = Inr out1"
    and "modify_gcode tool_names out1 layer_positions tool_sequence = Inr out2"
  shows "length out2 = length gcode_lines \<and>
     (\<forall>i < length gcode_lines.
        case planned_tool layer_positions tool_sequence i of
          None \<Rightarrow> out2 ! i = gcode_lines ! i
        | Some cur \<Rightarrow>
            (out1 ! i = sub_all_T (tool_token cur) (gcode_lines ! i) \<or> settled cur (out1 ! i) \<longrightarrow>
               out2 ! i = out1 ! i \<or>
               skip_note tool_names '' - skipped parking as '' (out1 ! i) cur = Inr (out2 ! i) \<or>
               skip_note tool_names '' - skipped pickup as '' (out1 ! i) cur = Inr (out2 ! i)))"
proof (intro conjI allI impI)
  note first = modify_gcode_planned [OF assms(1)]
  note second = modify_gcode_planned [OF assms(2)]
  show "length out2 = length gcode_lines" by (simp add: first(1) second(1))
  fix i assume i: "i < length gcode_lines"
  then have i1: "i < length out1" by (simp add: first(1))
  show "case planned_tool layer_positions tool_sequence i of
          None \<Rightarrow> out2 ! i = gcode_lines ! i
        | Some cur \<Rightarrow>
            (out1 ! i = sub_all_T (tool_token cur) (gcode_lines ! i) \<or> settled cur (out1 ! i) \<longrightarrow>
               out2 ! i = out1 ! i \<or>
               skip_note tool_names '' - skipped parking as '' (out1 ! i) cur = Inr (out2 ! i) \<or>
               skip_note tool_names '' - skipped pickup as '' (out1 ! i) cur = Inr (out2 ! i))"
  proof (cases "planned_tool layer_positions tool_sequence i")
    case None
    with first(2) [OF i] second(2) [OF i1] show ?thesis by simp
  next
    case (Some cur)
    have "out2 ! i = out1 ! i \<or>
        skip_note tool_names '' - skipped parking as '' (out1 ! i) cur = Inr (out2 ! i) \<or>
        skip_note tool_names '' - skipped pickup as '' (out1 ! i) cur = Inr (out2 ! i)"
      if "out1 ! i = sub_all_T (tool_token cur) (gcode_lines ! i) \<or> settled cur (out1 ! i)"
    proof -
      from that have "settled cur (out1 ! i)" using sub_all_T_settled [of cur] by auto
      moreover from second(3) [OF i1 Some] obtain active act where
        "rewrite_line tool_names cur active (out1 ! i) = Inr (out2 ! i, act)"
        by blast
      ultimately show ?thesis by (rule rewrite_line_settled [rotated])
    qed
    with Some show ?thesis by simp
  qed
qed

theorem second_pass_witness:
  "modify_gcode [''Cyan'', ''Magenta'']
     ['';LAYER_CHANGE'', ''T0 S1 L0 D0'', ''T0 S1 L0 D0'', ''G1 X5''] [0] [1] =
     Inr ['';LAYER_CHANGE'', ''T1 S1 L0 D0'', ''T1 S1 L0 D0'', ''G1 X5''] \<and>
   modify_gcode [''Cyan'', ''Magenta'']
     ['';LAYER_CHANGE'', ''T1 S1 L0 D0'', ''T1 S1 L0 D0'', ''G1 X5''] [0] [1] =
     Inr ['';LAYER_CHANGE'', ''T1 S1 L0 D0'',
          ''; T1 S1 L0 D0 - skipped pickup as T1 (Magenta) is already active'', ''G1 X5''] \<and>
   planned_tool [0] [1] 2 = Some 1 \<and>
   ''T1 S1 L0 D0'' = sub_all_T (tool_token 1) ''T0 S1 L0 D0'' \<and>
   skip_note [''Cyan'', ''Magenta''] '' - skipped pickup as '' ''T1 S1 L0 D0'' 1 =
     Inr ''; T1 S1 L0 D0 - skipped pickup as T1 (Magenta) is already active''"
proof -
  let ?n = "[''Cyan'', ''Magenta'']"
  let ?l = "['';LAYER_CHANGE'', ''T0 S1 L0 D0'', ''T0 S1 L0 D0'', ''G1 X5'']"
  let ?o1 = "['';LAYER_CHANGE'', ''T1 S1 L0 D0'', ''T1 S1 L0 D0'', ''G1 X5'']"
  let ?o2 = "['';LAYER_CHANGE'', ''T1 S1 L0 D0'',
          ''; T1 S1 L0 D0 - skipped pickup as T1 (Magenta) is already active'', ''G1 X5'']"
  have p1: "modify_gcode ?n ?l [0] [1] = Inr ?o1" by code_simp
  have p2: "modify_gcode ?n ?o1 [0] [1] = Inr ?o2" by code_simp
  have pl: "planned_tool [0] [1] 2 = Some 1" by code_simp
  have sub: "''T1 S1 L0 D0'' = sub_all_T (tool_token 1) ''T0 S1 L0 D0''" by code_simp
  have lines: "?o1 ! 2 = ''T1 S1 L0 D0''"
    "?o2 ! 2 = ''; T1 S1 L0 D0 - skipped pickup as T1 (Magenta) is already active''"
    by simp_all
  have i2: "(2::nat) < length ?l" by simp
  have hyp: "?o1 ! 2 = sub_all_T (tool_token 1) (?l ! 2)" by code_simp
  have ne1: "?o2 ! 2 \<noteq> ?o1 ! 2" by code_simp
  have ne2: "skip_note ?n '' - skipped parking as '' (?o1 ! 2) 1 \<noteq> Inr (?o2 ! 2)"
    by code_simp
  from second_pass [OF p1 p2] have "\<forall>i < length ?l.
        case planned_tool [0] [1] i of
          None \<Rightarrow> ?o2 ! i = ?l ! i
        | Some cur \<Rightarrow>
            (?o1 ! i = sub_all_T (tool_token cur) (?l ! i) \<or> settled cur (?o1 ! i) \<longrightarrow>
               ?o2 ! i = ?o1 ! i \<or>
               skip_note ?n '' - skipped parking as '' (?o1 ! i) cur = Inr (?o2 ! i) \<or>
               skip_note ?n '' - skipped pickup as '' (?o1 ! i) cur = Inr (?o2 ! i))"
    by (rule conjunct2)
  with i2 have "case planned_tool [0] [1] 2 of
          None \<Rightarrow> ?o2 ! 2 = ?l ! 2
        | Some cur \<Rightarrow>
            (?o1 ! 2 = sub_all_T (tool_token cur) (?l ! 2) \<or> settled cur (?o1 ! 2) \<longrightarrow>
               ?o2 ! 2 = ?o1 ! 2 \<or>
               skip_note ?n '' - skipped parking as '' (?o1 ! 2) cur = Inr (?o2 ! 2) \<or>
               skip_note ?n '' - skipped pickup as '' (?o1 ! 2) cur = Inr (?o2 ! 2))"
    by blast
  then have "?o1 ! 2 = sub_all_T (tool_token 1) (?l ! 2) \<or> settled 1 (?o1 ! 2) \<longrightarrow>
               ?o2 ! 2 = ?o1 ! 2 \<or>
               skip_note ?n '' - skipped parking as '' (?o1 ! 2) 1 = Inr (?o2 ! 2) \<or>
               skip_note ?n '' - skipped pickup as '' (?o1 ! 2) 1 = Inr (?o2 ! 2)"
    by (simp only: pl option.case)
  with hyp ne1 ne2
  have "skip_note ?n '' - skipped pickup as '' (?o1 ! 2) 1 = Inr (?o2 ! 2)"
    by blast
  then have "skip_note ?n '' - skipped pickup as '' ''T1 S1 L0 D0'' 1 =
     Inr ''; T1 S1 L0 D0 - skipped pickup as T1 (Magenta) is already active''"
    by (simp only: lines)
  with p1 p2 pl sub show ?thesis by blast
qed

text \<open>
  C8 as stated fails. The first pass rewrites the first heater command and comments
  out the second; the second pass leaves the rewritten command without any
  annotation, finds no active tool at the commented line, and turns it back into a
  live heater command.
\<close>

theorem second_pass_counterexample:
  "modify_gcode [''Cyan'', ''Magenta'']
     ['';LAYER_CHANGE'', ''M104.1 T0 P120'', ''M104.1 T0 P120''] [0] [1] =
     Inr ['';LAYER_CHANGE'', ''M104.1 T1 P120 Q122 S210 ; switched from T0 (Cyan) to T1 (Magenta)'',
          ''; M104.1 T0 P120 - skipped as T1 (Magenta) is already active''] \<and>
   modify_gcode [''Cyan'', ''Magenta'']
     ['';LAYER_CHANGE'', ''M104.1 T1 P120 Q122 S210 ; switched from T0 (Cyan) to T1 (Magenta)'',
      ''; M104.1 T0 P120 - skipped as T1 (Magenta) is already active''] [0] [1] =
     Inr ['';LAYER_CHANGE'', ''M104.1 T1 P120 Q122 S210 ; switched from T0 (Cyan) to T1 (Magenta)'',
          ''M104.1 T1 P120 Q122 S210 ; M104.1 T0 P120 - skipped as T1 (Magenta) is already active''] \<and>
   \<not> annotation_of ''M104.1 T1 P120 Q122 S210 ; switched from T0 (Cyan) to T1 (Magenta)''
       ''M104.1 T1 P120 Q122 S210 ; switched from T0 (Cyan) to T1 (Magenta)'' \<and>
   \<not> annotation_of ''; M104.1 T0 P120 - skipped as T1 (Magenta) is already active''
       ''M104.1 T1 P120 Q122 S210 ; M104.1 T0 P120 - skipped as T1 (Magenta) is already active''"
  by code_simp

subsection \<open>Conversion of a file\<close>



lemma count_tools_total:
  "list_all (\<lambda>t. t < length counts) ts \<Longrightarrow> \<exists>c. count_tools counts ts = Inr c"
  by (induction ts arbitrary: counts) simp_all

lemma report_total:
  assumes "list_all (\<lambda>t. t < length names_ui) ts" and "length ts = n"
  shows "\<exists>c. report names_ui n ts = Inr c"
proof -
  from assms(1) have "list_all (\<lambda>t. t < length (replicate (length names_ui) (0::nat))) ts"
    by simp
  then obtain c where c: "count_tools (replicate (length names_ui) 0) ts = Inr c"
    using count_tools_total by blast
  have "list_all (\<lambda>i. i < length ts \<and> ts ! i < length names_ui) [0..<min 20 n]"
    using assms by (auto simp: list_all_iff)
  with c show ?thesis by (simp add: report_def)
qed

text \<open>
  C10. For a valid pattern every tool of the planned sequence is an index of the
  pattern. Hence, when there are as many tool names as counts in the pattern: every
  name lookup for a planned tool succeeds; the pass over any document whose heater
  commands name tools with names returns without an \<^verbatim>\<open>IndexError\<close> (the
  current tool is always a tool of the sequence); and the caller's per-tool counts and
  layer report stay in bounds.
\<close>

theorem planned_tools_in_range:
  "valid_pattern pat \<Longrightarrow>
   \<exists>tool_sequence. calculate_tool_distribution n pat = Some tool_sequence \<and>
     (\<forall>t \<in> set tool_sequence. t < length pat) \<and>
     (length tool_names = length pat \<longrightarrow>
        (\<forall>t \<in> set tool_sequence. tool_name tool_names t = Inr (tool_names ! t)) \<and>
        (\<forall>gcode_lines layer_positions.
           list_all (\<lambda>line. case m104_search line of None \<Rightarrow> True
                        | Some old \<Rightarrow> old < length tool_names) gcode_lines \<longrightarrow>
           (\<exists>out. modify_gcode tool_names gcode_lines layer_positions tool_sequence = Inr out)) \<and>
        (\<exists>tool_counts. report tool_names n tool_sequence = Inr tool_counts))"
proof -
  assume v: "valid_pattern pat"
  define plan where "plan = take n (concat (replicate n (full_sweep pat)))"
  have ne: "full_sweep pat \<noteq> []"
    using v by (intro full_sweep_nonempty valid_pattern_pos)
  have calc: "calculate_tool_distribution n pat = Some plan"
    using ne unfolding plan_def by (rule calculate_tool_distribution_eq)
  have len: "length plan = n"
    unfolding plan_def using ne by (rule length_plan)
  have "set plan \<subseteq> set (concat (replicate n (full_sweep pat)))"
    unfolding plan_def by (rule set_take_subset)
  also have "\<dots> \<subseteq> set (full_sweep pat)" by auto
  also have "\<dots> \<subseteq> {..<length pat}" by (rule set_full_sweep)
  finally have range: "\<forall>t \<in> set plan. t < length pat" by auto
  have names: "(\<forall>t \<in> set plan. tool_name tool_names t = Inr (tool_names ! t)) \<and>
        (\<forall>gcode_lines layer_positions.
           list_all (\<lambda>line. case m104_search line of None \<Rightarrow> True
                        | Some old \<Rightarrow> old < length tool_names) gcode_lines \<longrightarrow>
           (\<exists>out. modify_gcode tool_names gcode_lines layer_positions plan = Inr out)) \<and>
        (\<exists>tool_counts. report tool_names n plan = Inr tool_counts)"
    if eq: "length tool_names = length pat"
  proof (intro conjI allI impI)
    show "\<forall>t \<in> set plan. tool_name tool_names t = Inr (tool_names ! t)"
      using range eq by (simp add: tool_name_def)
    have all: "list_all (\<lambda>t. t < length tool_names) plan"
      using range eq by (simp add: list_all_iff)
    then show "\<exists>tool_counts. report tool_names n plan = Inr tool_counts"
      using len by (rule report_total)
    fix gcode_lines :: "string list" and layer_positions :: "nat list"
    assume ls: "list_all (\<lambda>line. case m104_search line of None \<Rightarrow> True
                 | Some old \<Rightarrow> old < length tool_names) gcode_lines"
    have "- 1 \<le> current_layer initial_state"
      and "\<And>c. current_tool initial_state = Some c \<Longrightarrow> c \<in> set plan"
      by (simp_all add: initial_state_def)
    with all ls show "\<exists>out. modify_gcode tool_names gcode_lines layer_positions plan = Inr out"
      unfolding modify_gcode_def by (rule modify_loop_total)
  qed
  from calc range names show ?thesis by blast
qed

theorem planned_tools_in_range_witness:
  "valid_pattern [2, 0, 1, 0, 0] \<and>
   (\<exists>tool_sequence. calculate_tool_distribution 7 [2, 0, 1, 0, 0] = Some tool_sequence \<and>
      list_all (\<lambda>t. t < length [2, 0, 1, 0, 0 :: rat]) tool_sequence \<and>
      list_all (\<lambda>t. tool_name [''Cyan'', ''Magenta'', ''Yellow'', ''White'', ''Black''] t =
         Inr ([''Cyan'', ''Magenta'', ''Yellow'', ''White'', ''Black''] ! t)) tool_sequence \<and>
      (\<exists>tool_counts. report [''Cyan'', ''Magenta'', ''Yellow'', ''White'', ''Black''] 7 tool_sequence =
         Inr tool_counts))"
proof -
  have v: "valid_pattern [2, 0, 1, 0, 0]" by (simp add: valid_pattern_def)
  have l: "length [''Cyan'', ''Magenta'', ''Yellow'', ''White'', ''Black''] = length [2, 0, 1, 0, 0 :: rat]"
    by simp
  from planned_tools_in_range [OF v, of 7 "[''Cyan'', ''Magenta'', ''Yellow'', ''White'', ''Black'']"] l v
  show ?thesis unfolding list_all_iff by blast
qed

end
